theory Spec2Isabelle
  imports Main "HOL-Library.AList"
begin

section \<open>Data model of the dependency detector\<close>

text \<open>
  A shallow embedding of \<^verbatim>\<open>git_deps/detector.py\<close> (class \<^verbatim>\<open>DependencyDetector\<close>).
  Python dictionaries keep insertion order, so every dictionary of the detector is an
  association list: \<open>map_of\<close> looks a key up, \<open>AList.update\<close> stores a value (in place
  for a present key, at the end for a new one) and \<open>AList.delete\<close> is \<^verbatim>\<open>del\<close>.
\<close>

type_synonym sha = string
type_synonym path = string

text \<open>Objects of the version-control backend: a tree maps entry names to object ids.\<close>

datatype git_object = Blob | Tree "(string \<times> string) list"

datatype commit = Commit (cid: sha) (parents: "commit list") (tree: git_object)

record diff_line =
  origin :: char
  content :: string

record hunk =
  old_start :: int
  old_lines :: int
  new_start :: int
  new_lines :: int
  lines :: "diff_line list"

record patch =
  old_file_path :: path
  hunks :: "hunk list"

record blame_hunk =
  orig_start_line_number :: int
  final_start_line_number :: int
  orig_commit_id :: sha
  lines_in_hunk :: int

record options =
  recurse :: bool
  context_lines :: int
  pygit2_blame :: bool
  exclude_commits :: "string list option"

text \<open>
  The backend the detector calls into. None of it is code of the detector: the
  repository object of the git library, \<^verbatim>\<open>GitUtils.ref_commit\<close>, \<^verbatim>\<open>blame_via_subprocess\<close>
  and the \<^verbatim>\<open>git merge-base\<close> subprocess are parameters of the model.
  \<open>ref_commit\<close> gives \<open>None\<close> where the source raises \<^verbatim>\<open>InvalidCommitish\<close>,
  \<open>merge_base\<close> gives \<open>None\<close> where the subprocess exits with an error and otherwise
  the stripped output, \<open>objects\<close> is the lookup \<^verbatim>\<open>repo[oid]\<close>.
\<close>

record backend =
  ref_commit :: "string \<Rightarrow> commit option"
  diff :: "commit \<Rightarrow> commit \<Rightarrow> int \<Rightarrow> patch list"
  repo_blame :: "path \<Rightarrow> sha \<Rightarrow> int \<Rightarrow> int \<Rightarrow> blame_hunk list"
  blame_via_subprocess :: "path \<Rightarrow> sha \<Rightarrow> int \<Rightarrow> int \<Rightarrow> blame_hunk list"
  objects :: "string \<Rightarrow> git_object option"
  merge_base :: "sha \<Rightarrow> sha \<Rightarrow> string option"

text \<open>
  The dependency graph: dependents -> dependencies -> paths -> line numbers -> the
  line representation recorded for that line.
\<close>

type_synonym sources = "(path \<times> (int \<times> string) list) list"
type_synonym edge_map = "(sha \<times> sources) list"
type_synonym graph = "(sha \<times> edge_map) list"

text \<open>
  The notifications sent to the listeners. \<^verbatim>\<open>notify_listeners\<close> calls every registered
  listener in turn; the model keeps the sequence of notifications one listener receives.
\<close>

datatype event =
    New_commit commit
  | New_dependent commit
  | New_dependency commit commit path int
  | New_path commit commit path int
  | New_line commit commit path int
  | Dependent_done commit edge_map
  | All_done

text \<open>
  A key of the commit cache as Python sees it: a revision string or a commit object.
  The two never compare equal.
\<close>

datatype pykey = KStr string | KCommit commit

record detector =
  dependencies :: graph
  todo :: "commit list"
  todo_d :: "(sha \<times> bool) list"
  done_l :: "sha list"
  done_d :: "(sha \<times> bool) list"
  commits :: "(pykey \<times> commit) list"
  branch_contains_cache :: "(sha \<times> (sha \<times> bool) list) list"
  events :: "event list"

datatype error = InvalidCommitish string | Abort | KeyError | CalledProcessError

text \<open>The state \<^verbatim>\<open>__init__\<close> builds.\<close>

definition init :: detector where
  "init = \<lparr>dependencies = [], todo = [], todo_d = [], done_l = [], done_d = [],
           commits = [], branch_contains_cache = [], events = []\<rparr>"

text \<open>
  Modelled from the spec: \<^verbatim>\<open>git_deps.utils.abort\<close> is not among the sources. The spec
  calls it a fatal abort that terminates the entire run immediately; the model ends the
  run with the error \<open>Abort\<close> (the message text is not kept).
\<close>

definition abort :: "error + 'a" where
  "abort = Inl Abort"

definition has_key :: "('k \<times> 'v) list \<Rightarrow> 'k \<Rightarrow> bool" where
  "has_key d k = (map_of d k \<noteq> None)"

definition notify_listeners :: "event \<Rightarrow> detector \<Rightarrow> detector" where
  "notify_listeners e st = st\<lparr>events := events st @ [e]\<rparr>"

section \<open>Commit cache\<close>

definition seen_commit :: "detector \<Rightarrow> pykey \<Rightarrow> bool" where
  "seen_commit st key = has_key (commits st) key"

definition get_commit :: "backend \<Rightarrow> detector \<Rightarrow> string \<Rightarrow> error + (commit \<times> detector)" where
  "get_commit be st revision =
     (case map_of (commits st) (KStr revision) of
        Some c \<Rightarrow> Inr (c, st)
      | None \<Rightarrow>
          (case ref_commit be revision of
             None \<Rightarrow> Inl (InvalidCommitish revision)
           | Some c \<Rightarrow>
               Inr (c, st\<lparr>commits := AList.update (KStr revision) c (commits st)\<rparr>)))"

section \<open>Exclusion by ancestry\<close>

definition branch_contains ::
  "backend \<Rightarrow> detector \<Rightarrow> commit \<Rightarrow> string \<Rightarrow> error + (bool \<times> detector)" where
  "branch_contains be st commit branch =
     (case get_commit be st branch of
        Inl e \<Rightarrow> Inl e
      | Inr (branch_commit, st1) \<Rightarrow>
          (let sha1 = cid commit;
               branch_sha1 = cid branch_commit;
               cache1 = (if \<not> has_key (branch_contains_cache st1) sha1
                         then AList.update sha1 [] (branch_contains_cache st1)
                         else branch_contains_cache st1);
               row = (case map_of cache1 sha1 of Some r \<Rightarrow> r | None \<Rightarrow> []);
               st2 = st1\<lparr>branch_contains_cache := cache1\<rparr>
           in (case map_of row branch_sha1 of
                 Some memoized \<Rightarrow> Inr (memoized, st2)
               | None \<Rightarrow>
                   (case merge_base be sha1 branch_sha1 of
                      None \<Rightarrow> Inl CalledProcessError
                    | Some out \<Rightarrow>
                        Inr (out = sha1,
                             st2\<lparr>branch_contains_cache :=
                                   AList.update sha1 (AList.update branch_sha1 (out = sha1) row)
                                     cache1\<rparr>)))))"

fun is_excluded_loop ::
  "backend \<Rightarrow> detector \<Rightarrow> commit \<Rightarrow> string list \<Rightarrow> error + (bool \<times> detector)" where
  "is_excluded_loop be st commit [] = Inr (False, st)"
| "is_excluded_loop be st commit (exclude # rest) =
     (case branch_contains be st commit exclude of
        Inl e \<Rightarrow> Inl e
      | Inr (b, st1) \<Rightarrow> if b then Inr (True, st1) else is_excluded_loop be st1 commit rest)"

definition is_excluded ::
  "backend \<Rightarrow> options \<Rightarrow> detector \<Rightarrow> commit \<Rightarrow> error + (bool \<times> detector)" where
  "is_excluded be opts st commit =
     (case exclude_commits opts of
        None \<Rightarrow> Inr (False, st)
      | Some excl \<Rightarrow> is_excluded_loop be st commit excl)"

section \<open>Looking a path up in a commit's tree\<close>

text \<open>\<^verbatim>\<open>target_path.split("/")\<close>: always at least one segment.\<close>

fun split_slash :: "string \<Rightarrow> string list" where
  "split_slash [] = [ []]"
| "split_slash (c # cs) =
     (if c = CHR ''/'' then [] # split_slash cs
      else (case split_slash cs of
              seg # segs \<Rightarrow> (c # seg) # segs
            | [] \<Rightarrow> [ [c]]))"

fun tree_walk :: "backend \<Rightarrow> git_object \<Rightarrow> string list \<Rightarrow> error + git_object option" where
  "tree_walk be tree_or_blob [] = Inr (Some tree_or_blob)"
| "tree_walk be tree_or_blob (dirent # segments) =
     (case tree_or_blob of
        Tree entries \<Rightarrow>
          (case map_of entries dirent of
             Some oid \<Rightarrow>
               (case objects be oid of
                  None \<Rightarrow> Inl KeyError
                | Some obj \<Rightarrow> tree_walk be obj segments)
           | None \<Rightarrow> Inr None)
      | Blob \<Rightarrow> Inr None)"

definition tree_lookup :: "backend \<Rightarrow> path \<Rightarrow> commit \<Rightarrow> error + git_object option" where
  "tree_lookup be target_path commit = tree_walk be (tree commit) (split_slash target_path)"

text \<open>
  Python truth of what \<^verbatim>\<open>tree_lookup\<close> returns: \<^verbatim>\<open>None\<close> is false, and so is a tree
  without entries (a tree object has a length); a blob is true.
\<close>

fun truthy :: "git_object option \<Rightarrow> bool" where
  "truthy None = False"
| "truthy (Some Blob) = True"
| "truthy (Some (Tree entries)) = (entries \<noteq> [])"

section \<open>Recording dependencies\<close>

text \<open>Python's \<^verbatim>\<open>str\<close> of an integer, for the line representation.\<close>

definition digit_char :: "nat \<Rightarrow> char" where
  "digit_char n = ''0123456789'' ! (n mod 10)"

function str_nat :: "nat \<Rightarrow> string" where
  "str_nat n = (if n < 10 then [digit_char n] else str_nat (n div 10) @ [digit_char n])"
  by pat_completeness auto
termination
  by (relation "measure id") auto

declare str_nat.simps [simp del]

definition str_int :: "int \<Rightarrow> string" where
  "str_int i = (if i < 0 then CHR ''-'' # str_nat (nat (- i)) else str_nat (nat i))"

definition line_representation :: "sha \<Rightarrow> int \<Rightarrow> int \<Rightarrow> string" where
  "line_representation dependency_sha1 orig_line_num line_num =
     dependency_sha1 @ '' '' @ str_int orig_line_num @ '' '' @ str_int line_num"

definition register_new_dependent :: "detector \<Rightarrow> commit \<Rightarrow> sha \<Rightarrow> detector" where
  "register_new_dependent st dependent dependent_sha1 =
     (if \<not> has_key (dependencies st) dependent_sha1
      then notify_listeners (New_dependent dependent)
             (st\<lparr>dependencies := AList.update dependent_sha1 [] (dependencies st)\<rparr>)
      else st)"

definition run_blame :: "backend \<Rightarrow> options \<Rightarrow> hunk \<Rightarrow> commit \<Rightarrow> path \<Rightarrow> blame_hunk list" where
  "run_blame be opts h parent p =
     (if pygit2_blame opts
      then repo_blame be p (cid parent) (old_start h) (old_start h + old_lines h - 1)
      else blame_via_subprocess be p (cid parent) (old_start h) (old_lines h))"

text \<open>
  \<^verbatim>\<open>self.dependencies[dependent_sha1][dependency_sha1] = value\<close>: the outer lookup raises
  \<^verbatim>\<open>KeyError\<close> for a dependent that is not registered.
\<close>

definition set_edge :: "detector \<Rightarrow> sha \<Rightarrow> sha \<Rightarrow> sources \<Rightarrow> error + detector" where
  "set_edge st dependent_sha1 dependency_sha1 v =
     (case map_of (dependencies st) dependent_sha1 of
        None \<Rightarrow> Inl KeyError
      | Some em \<Rightarrow>
          Inr (st\<lparr>dependencies :=
                    AList.update dependent_sha1 (AList.update dependency_sha1 v em)
                      (dependencies st)\<rparr>))"

definition process_new_dependency ::
  "options \<Rightarrow> detector \<Rightarrow> commit \<Rightarrow> sha \<Rightarrow> commit \<Rightarrow> sha \<Rightarrow> path \<Rightarrow> int \<Rightarrow> error + detector" where
  "process_new_dependency opts st dependent dependent_sha1 dependency dependency_sha1 p line_num =
     (case (if \<not> seen_commit st (KCommit dependency)
            then set_edge (notify_listeners (New_commit dependency) st)
                   dependent_sha1 dependency_sha1 []
            else Inr st) of
        Inl e \<Rightarrow> Inl e
      | Inr st1 \<Rightarrow>
          (let st2 = notify_listeners (New_dependency dependent dependency p line_num) st1
           in if has_key (todo_d st2) dependency_sha1 then Inr st2
              else if has_key (done_d st2) dependency_sha1 then Inr st2
              else if \<not> has_key (dependencies st2) dependency_sha1 \<and> recurse opts
              then Inr (st2\<lparr>todo := todo st2 @ [dependency],
                            todo_d := AList.update (cid dependency) True (todo_d st2)\<rparr>)
              else Inr st2))"

definition record_dependency_source ::
  "detector \<Rightarrow> commit \<Rightarrow> sha \<Rightarrow> commit \<Rightarrow> sha \<Rightarrow> path \<Rightarrow> int \<Rightarrow> string \<Rightarrow> error + detector" where
  "record_dependency_source st dependent dependent_sha1 dependency dependency_sha1 p line_num line =
     (case map_of (dependencies st) dependent_sha1 of
        None \<Rightarrow> Inl KeyError
      | Some em \<Rightarrow>
          (case map_of em dependency_sha1 of
             None \<Rightarrow> Inl KeyError
           | Some dep_sources \<Rightarrow>
               (let new_path = \<not> has_key dep_sources p;
                    dep_sources1 = (if new_path then AList.update p [] dep_sources
                                    else dep_sources);
                    st1 = (if new_path
                           then notify_listeners (New_path dependent dependency p line_num) st
                           else st);
                    found = (case map_of dep_sources1 p of Some ls \<Rightarrow> ls | None \<Rightarrow> [])
                in if has_key found line_num then abort
                   else (case set_edge st1 dependent_sha1 dependency_sha1
                                (AList.update p (AList.update line_num line found) dep_sources1) of
                           Inl e \<Rightarrow> Inl e
                         | Inr st2 \<Rightarrow>
                             Inr (notify_listeners
                                    (New_line dependent dependency p line_num) st2)))))"

section \<open>Blaming the hunks of a diff\<close>

type_synonym culprits = "(int \<times> sha) list"

definition process_blame_hunk ::
  "backend \<Rightarrow> options \<Rightarrow> detector \<Rightarrow> commit \<Rightarrow> sha \<Rightarrow> commit \<Rightarrow> path \<Rightarrow> blame_hunk \<Rightarrow> culprits
     \<Rightarrow> error + (detector \<times> culprits)" where
  "process_blame_hunk be opts st dependent dependent_sha1 parent p bh line_to_culprit =
     (let orig_line_num = orig_start_line_number bh;
          line_num = final_start_line_number bh;
          dependency_sha1 = orig_commit_id bh;
          line = line_representation dependency_sha1 orig_line_num line_num
      in case get_commit be st dependency_sha1 of
           Inl e \<Rightarrow> Inl e
         | Inr (dependency, st1) \<Rightarrow>
             (let ltc = fold (\<lambda>i. AList.update (line_num + i) (cid dependency))
                          [0 .. lines_in_hunk bh - 1] line_to_culprit
              in case is_excluded be opts st1 dependency of
                   Inl e \<Rightarrow> Inl e
                 | Inr (excluded, st2) \<Rightarrow>
                     if excluded then Inr (st2, ltc)
                     else (case map_of (dependencies st2) dependent_sha1 of
                             None \<Rightarrow> Inl KeyError
                           | Some em \<Rightarrow>
                               (case (if \<not> has_key em dependency_sha1
                                      then process_new_dependency opts st2 dependent dependent_sha1
                                             dependency dependency_sha1 p line_num
                                      else Inr st2) of
                                  Inl e \<Rightarrow> Inl e
                                | Inr st3 \<Rightarrow>
                                    (case record_dependency_source st3 dependent dependent_sha1
                                            dependency dependency_sha1 p line_num line of
                                       Inl e \<Rightarrow> Inl e
                                     | Inr st4 \<Rightarrow> Inr (st4, ltc))))))"

fun blame_loop ::
  "backend \<Rightarrow> options \<Rightarrow> detector \<Rightarrow> commit \<Rightarrow> sha \<Rightarrow> commit \<Rightarrow> path \<Rightarrow> blame_hunk list
     \<Rightarrow> culprits \<Rightarrow> error + (detector \<times> culprits)" where
  "blame_loop be opts st dependent dependent_sha1 parent p [] ltc = Inr (st, ltc)"
| "blame_loop be opts st dependent dependent_sha1 parent p (bh # blame) ltc =
     (case process_blame_hunk be opts st dependent dependent_sha1 parent p bh ltc of
        Inl e \<Rightarrow> Inl e
      | Inr (st1, ltc1) \<Rightarrow> blame_loop be opts st1 dependent dependent_sha1 parent p blame ltc1)"

text \<open>
  \<^verbatim>\<open>debug_hunk\<close> only logs, but it reads \<^verbatim>\<open>line_to_culprit[line_num]\<close> for every line of
  the hunk that is not an added one, which raises \<^verbatim>\<open>KeyError\<close> for a line the blame did
  not cover. \<open>rstrip\<close> removes the trailing characters that \<^verbatim>\<open>str.isspace\<close> accepts;
  a character of the model is a code point below 256, and among those these are
  U+0009 to U+000D, U+001C to U+0020, U+0085 and U+00A0.
\<close>

definition is_space :: "char \<Rightarrow> bool" where
  "is_space c = (c \<in> set [CHR '' '', CHR 0x09, CHR 0x0A, CHR 0x0B, CHR 0x0C, CHR 0x0D,
                           CHR 0x1C, CHR 0x1D, CHR 0x1E, CHR 0x1F, CHR 0x85, CHR 0xA0])"

definition rstrip :: "string \<Rightarrow> string" where
  "rstrip s = rev (dropWhile is_space (rev s))"

definition no_newline_marker :: string where
  "no_newline_marker = CHR 0x0A # CHR 0x5C # '' No newline at end of file''"

fun debug_lines :: "culprits \<Rightarrow> int \<Rightarrow> diff_line list \<Rightarrow> error + unit" where
  "debug_lines line_to_culprit line_num [] = Inr ()"
| "debug_lines line_to_culprit line_num (l # ls) =
     (if no_newline_marker = rstrip (content l) then Inr ()
      else if origin l = CHR ''+'' then debug_lines line_to_culprit line_num ls
      else (case map_of line_to_culprit line_num of
              None \<Rightarrow> Inl KeyError
            | Some culprit \<Rightarrow> debug_lines line_to_culprit (line_num + 1) ls))"

definition debug_hunk :: "hunk \<Rightarrow> culprits \<Rightarrow> error + unit" where
  "debug_hunk h line_to_culprit = debug_lines line_to_culprit (old_start h) (lines h)"

definition blame_diff_hunk ::
  "backend \<Rightarrow> options \<Rightarrow> detector \<Rightarrow> commit \<Rightarrow> commit \<Rightarrow> path \<Rightarrow> hunk \<Rightarrow> error + detector" where
  "blame_diff_hunk be opts st dependent parent p h =
     (case tree_lookup be p parent of
        Inl e \<Rightarrow> Inl e
      | Inr found \<Rightarrow>
          if \<not> truthy found then Inr st
          else (let blame = run_blame be opts h parent p;
                    dependent_sha1 = cid dependent;
                    st1 = register_new_dependent st dependent dependent_sha1
                in case blame_loop be opts st1 dependent dependent_sha1 parent p blame [] of
                     Inl e \<Rightarrow> Inl e
                   | Inr (st2, line_to_culprit) \<Rightarrow>
                       (case debug_hunk h line_to_culprit of
                          Inl e \<Rightarrow> Inl e
                        | Inr u \<Rightarrow> Inr st2)))"

fun hunks_loop ::
  "backend \<Rightarrow> options \<Rightarrow> detector \<Rightarrow> commit \<Rightarrow> commit \<Rightarrow> path \<Rightarrow> hunk list \<Rightarrow> error + detector" where
  "hunks_loop be opts st dependent parent p [] = Inr st"
| "hunks_loop be opts st dependent parent p (h # hs) =
     (case blame_diff_hunk be opts st dependent parent p h of
        Inl e \<Rightarrow> Inl e
      | Inr st1 \<Rightarrow> hunks_loop be opts st1 dependent parent p hs)"

fun patches_loop ::
  "backend \<Rightarrow> options \<Rightarrow> detector \<Rightarrow> commit \<Rightarrow> commit \<Rightarrow> patch list \<Rightarrow> error + detector" where
  "patches_loop be opts st dependent parent [] = Inr st"
| "patches_loop be opts st dependent parent (pt # pts) =
     (case hunks_loop be opts st dependent parent (old_file_path pt) (hunks pt) of
        Inl e \<Rightarrow> Inl e
      | Inr st1 \<Rightarrow> patches_loop be opts st1 dependent parent pts)"

definition find_dependencies_with_parent ::
  "backend \<Rightarrow> options \<Rightarrow> detector \<Rightarrow> commit \<Rightarrow> commit \<Rightarrow> error + detector" where
  "find_dependencies_with_parent be opts st dependent parent =
     patches_loop be opts st dependent parent (diff be parent dependent (context_lines opts))"

section \<open>The worklist\<close>

text \<open>One turn of the \<^verbatim>\<open>while self.todo\<close> loop of \<^verbatim>\<open>find_dependencies\<close>.\<close>

definition process_todo :: "backend \<Rightarrow> options \<Rightarrow> detector \<Rightarrow> error + detector" where
  "process_todo be opts st =
     (case todo st of
        [] \<Rightarrow> Inr st
      | dependent # rest \<Rightarrow>
          (let dependent_sha1 = cid dependent in
           if \<not> has_key (todo_d st) dependent_sha1 then Inl KeyError
           else (let st1 = st\<lparr>todo := rest, todo_d := AList.delete dependent_sha1 (todo_d st)\<rparr>
                 in if has_key (done_d st1) dependent_sha1 then Inr st1
                    else (case (case parents dependent of
                                  [] \<Rightarrow> Inr (notify_listeners (New_commit dependent) st1)
                                | parent # others \<Rightarrow>
                                    find_dependencies_with_parent be opts
                                      (notify_listeners (New_commit dependent) st1)
                                      dependent parent) of
                            Inl e \<Rightarrow> Inl e
                          | Inr st2 \<Rightarrow>
                              (let st3 = st2\<lparr>done_l := done_l st2 @ [dependent_sha1],
                                             done_d := AList.update dependent_sha1 True
                                                         (done_d st2)\<rparr>;
                                   found = (case map_of (dependencies st3) dependent_sha1 of
                                              Some em \<Rightarrow> em | None \<Rightarrow> [])
                               in Inr (notify_listeners
                                         (Dependent_done dependent found) st3))))))"

partial_function (option) todo_loop ::
  "backend \<Rightarrow> options \<Rightarrow> detector \<Rightarrow> (error + detector) option" where
  "todo_loop be opts st =
     (if todo st = [] then Some (Inr st)
      else (case process_todo be opts st of
              Inl e \<Rightarrow> Some (Inl e)
            | Inr st1 \<Rightarrow> todo_loop be opts st1))"

declare todo_loop.simps [code]

text \<open>
  \<^verbatim>\<open>find_dependencies(dependent_rev, recurse=None)\<close>. \<open>None\<close> is a run that does not
  return; \<open>Some (Inl e)\<close> a run ended by an error; \<open>Some (Inr st)\<close> a run that returns
  normally in state \<open>st\<close>.
\<close>

definition find_dependencies ::
  "backend \<Rightarrow> options \<Rightarrow> detector \<Rightarrow> string \<Rightarrow> bool option \<Rightarrow> (error + detector) option" where
  "find_dependencies be opts st dependent_rev recurse_arg =
     (let recurse_local = (case recurse_arg of None \<Rightarrow> recurse opts | Some r \<Rightarrow> r)
      in case get_commit be st dependent_rev of
           Inl e \<Rightarrow> Some abort
         | Inr (dependent, st1) \<Rightarrow>
             (case todo_loop be opts
                     (st1\<lparr>todo := todo st1 @ [dependent],
                          todo_d := AList.update (cid dependent) True (todo_d st1)\<rparr>) of
                None \<Rightarrow> None
              | Some (Inl e) \<Rightarrow> Some (Inl e)
              | Some (Inr st2) \<Rightarrow> Some (Inr (notify_listeners All_done st2))))"

section \<open>The edges of the graph\<close>

definition edges :: "detector \<Rightarrow> (sha \<times> sha) list list" where
  "edges st =
     map (\<lambda>dependent.
            map (\<lambda>dependency. (dependent, dependency))
              (map fst (case map_of (dependencies st) dependent of
                          Some em \<Rightarrow> em | None \<Rightarrow> [])))
       (map fst (dependencies st))"

section \<open>Invariants and auxiliary notions\<close>

text \<open>
  The caches agree with the backend: every key of the commit cache is a revision string
  and its entry is the commit the backend resolves it to; every memoized answer of
  \<open>branch_contains\<close> is the answer the merge base query gives. \<open>only_caches\<close> relates
  two states that differ in the caches only.
\<close>

definition cache_ok :: "backend \<Rightarrow> detector \<Rightarrow> bool" where
  "cache_ok be st =
     ((\<forall>k c. map_of (commits st) k = Some c \<longrightarrow> (\<exists>r. k = KStr r \<and> ref_commit be r = Some c))
      \<and> (\<forall>x row y v. map_of (branch_contains_cache st) x = Some row \<longrightarrow> map_of row y = Some v
            \<longrightarrow> v = (merge_base be x y = Some x)))"

definition only_caches :: "detector \<Rightarrow> detector \<Rightarrow> bool" where
  "only_caches st st' =
     (dependencies st' = dependencies st \<and> todo st' = todo st \<and> todo_d st' = todo_d st
      \<and> done_l st' = done_l st \<and> done_d st' = done_d st \<and> events st' = events st)"

text \<open>
  The exclusion test in the words of the specification: a candidate is excluded when
  some configured boundary resolves to a commit \<open>B\<close> with
  merge_base(candidate, B) = candidate.
\<close>

definition excluded_by :: "backend \<Rightarrow> sha \<Rightarrow> string \<Rightarrow> bool" where
  "excluded_by be candidate boundary =
     (case ref_commit be boundary of
        None \<Rightarrow> False
      | Some b \<Rightarrow> merge_base be candidate (cid b) = Some candidate)"

definition is_excluded_spec :: "backend \<Rightarrow> options \<Rightarrow> sha \<Rightarrow> bool" where
  "is_excluded_spec be opts candidate =
     (case exclude_commits opts of
        None \<Rightarrow> False
      | Some excl \<Rightarrow> list_ex (excluded_by be candidate) excl)"

text \<open>
  What the processing of one commit may do besides changing the graph and the caches:
  it leaves the done list alone, appends commits of the backend to the worklist and
  appends notifications other than \<open>all_done\<close>.
\<close>

definition frame :: "backend \<Rightarrow> detector \<Rightarrow> detector \<Rightarrow> bool" where
  "frame be st st' =
     (done_l st' = done_l st \<and> done_d st' = done_d st
      \<and> (\<exists>new. todo st' = todo st @ new \<and> set new \<subseteq> ran (ref_commit be))
      \<and> (\<exists>evs. events st' = events st @ evs \<and> All_done \<notin> set evs))"

definition edges_of :: "detector \<Rightarrow> sha \<Rightarrow> edge_map" where
  "edges_of st d = (case map_of (dependencies st) d of Some em \<Rightarrow> em | None \<Rightarrow> [])"

text \<open>
  Lifting an invariant \<open>I\<close> of the graph from one blame result to a whole run: \<open>I\<close> is
  kept by \<open>process_blame_hunk\<close> on the blame results of a (dependent, parent) pair
  (\<open>hunk_step_ok\<close>) and by the registration of the dependent (\<open>register_ok\<close>), and it
  depends on the graph only (\<open>graph_only\<close>); \<open>run_step_ok\<close> asks this for every commit
  of the backend and its first parent.
\<close>

definition hunk_step_ok ::
  "backend \<Rightarrow> options \<Rightarrow> (detector \<Rightarrow> bool) \<Rightarrow> commit \<Rightarrow> commit \<Rightarrow> bool" where
  "hunk_step_ok be opts I dependent parent =
     (\<forall>st p h bh ltc st' ltc'.
        I st \<longrightarrow> cache_ok be st \<longrightarrow> has_key (dependencies st) (cid dependent)
        \<longrightarrow> bh \<in> set (run_blame be opts h parent p)
        \<longrightarrow> process_blame_hunk be opts st dependent (cid dependent) parent p bh ltc = Inr (st', ltc')
        \<longrightarrow> I st')"

definition register_ok :: "(detector \<Rightarrow> bool) \<Rightarrow> commit \<Rightarrow> bool" where
  "register_ok I dependent =
     (\<forall>st. I st \<longrightarrow> I (register_new_dependent st dependent (cid dependent)))"

definition inner_post ::
  "backend \<Rightarrow> (detector \<Rightarrow> bool) \<Rightarrow> commit \<Rightarrow> detector \<Rightarrow> detector \<Rightarrow> bool" where
  "inner_post be I dependent st st' =
     (I st' \<and> cache_ok be st' \<and> frame be st st'
      \<and> (\<forall>d. has_key (dependencies st') d \<longrightarrow> d = cid dependent \<or> has_key (dependencies st) d))"

text \<open>
  The two ends of a turn of the worklist loop: \<open>popped\<close> removes the head of the queue,
  \<open>finished\<close> marks the commit done and fires \<open>dependent_done\<close>. \<open>turn_post\<close> is what a
  turn guarantees, \<open>todo_measure\<close> the measure that decreases with every turn
  (lexicographically: the commits of the backend that are not done, then the length of
  the queue).
\<close>

definition popped :: "detector \<Rightarrow> detector" where
  "popped st = st\<lparr>todo := tl (todo st),
                  todo_d := AList.delete (cid (hd (todo st))) (todo_d st)\<rparr>"

definition finished :: "commit \<Rightarrow> detector \<Rightarrow> detector" where
  "finished dependent st =
     notify_listeners (Dependent_done dependent (edges_of st (cid dependent)))
       (st\<lparr>done_l := done_l st @ [cid dependent],
           done_d := AList.update (cid dependent) True (done_d st)\<rparr>)"

definition graph_only :: "(detector \<Rightarrow> bool) \<Rightarrow> bool" where
  "graph_only I = (\<forall>st st'. dependencies st' = dependencies st \<longrightarrow> I st \<longrightarrow> I st')"

definition run_step_ok :: "backend \<Rightarrow> options \<Rightarrow> (detector \<Rightarrow> bool) \<Rightarrow> bool" where
  "run_step_ok be opts I =
     (graph_only I
      \<and> (\<forall>dependent \<in> ran (ref_commit be).
            register_ok I dependent
            \<and> (\<forall>parent others. parents dependent = parent # others
                  \<longrightarrow> hunk_step_ok be opts I dependent parent)))"

definition turn_post :: "backend \<Rightarrow> detector \<Rightarrow> detector \<Rightarrow> bool" where
  "turn_post be st st' =
     (cache_ok be st' \<and> set (todo st') \<subseteq> ran (ref_commit be)
      \<and> (\<exists>new. todo st' = tl (todo st) @ new)
      \<and> (\<exists>evs. events st' = events st @ evs \<and> All_done \<notin> set evs)
      \<and> (done_l st' = done_l st \<and> done_d st' = done_d st \<and> todo st' = tl (todo st)
          \<or> \<not> has_key (done_d st) (cid (hd (todo st)))
            \<and> done_l st' = done_l st @ [cid (hd (todo st))]
            \<and> done_d st' = AList.update (cid (hd (todo st))) True (done_d st))
      \<and> (\<forall>d. has_key (dependencies st') d
            \<longrightarrow> has_key (dependencies st) d \<or> has_key (done_d st') d))"

definition todo_measure :: "backend \<Rightarrow> detector \<Rightarrow> nat \<times> nat" where
  "todo_measure be st =
     (card (cid ` ran (ref_commit be) - fst ` set (done_d st)), length (todo st))"

text \<open>
  Invariants of the detector between turns: every registered dependent is done, the
  done list and the done dictionary hold the same hashes, each once, the caches agree
  with the backend and the queue holds commits of the backend.
\<close>

definition registered_done :: "detector \<Rightarrow> bool" where
  "registered_done st = list_all (has_key (done_d st)) (map fst (dependencies st))"

definition done_ok :: "detector \<Rightarrow> bool" where
  "done_ok st = (distinct (done_l st) \<and> set (done_l st) = fst ` set (done_d st))"

definition run_inv :: "backend \<Rightarrow> detector \<Rightarrow> bool" where
  "run_inv be st =
     (cache_ok be st \<and> set (todo st) \<subseteq> ran (ref_commit be) \<and> done_ok st \<and> registered_done st)"

definition run_progress :: "backend \<Rightarrow> detector \<Rightarrow> detector \<Rightarrow> bool" where
  "run_progress be st0 s =
     (run_inv be s
      \<and> (\<exists>evs. events s = events st0 @ evs \<and> All_done \<notin> set evs)
      \<and> (\<exists>new. done_l s = done_l st0 @ new))"

text \<open>
  The evidence recorded for a (dependent, dependency, path) triple, empty when there is
  none, and the invariant that no evidence list holds a line number twice.
\<close>

definition evidence :: "detector \<Rightarrow> sha \<Rightarrow> sha \<Rightarrow> path \<Rightarrow> (int \<times> string) list" where
  "evidence st d y p =
     (case map_of (edges_of st d) y of
        None \<Rightarrow> []
      | Some srcs \<Rightarrow> (case map_of srcs p of None \<Rightarrow> [] | Some ls \<Rightarrow> ls))"

definition sources_ok :: "sources \<Rightarrow> bool" where
  "sources_ok srcs = list_all (\<lambda>(p, ls). distinct (map fst ls)) srcs"

definition edge_map_ok :: "edge_map \<Rightarrow> bool" where
  "edge_map_ok em = list_all (\<lambda>(y, srcs). sources_ok srcs) em"

definition no_duplicate_evidence :: "detector \<Rightarrow> bool" where
  "no_duplicate_evidence st = list_all (\<lambda>(d, em). edge_map_ok em) (dependencies st)"

text \<open>
  The flat sequence of pairs the specification describes, one pair per dependency key,
  and the well-formedness of the dictionaries of the graph (no key twice).
\<close>

definition edges_flattened :: "detector \<Rightarrow> (sha \<times> sha) list" where
  "edges_flattened st =
     concat (map (\<lambda>(dependent, em). map (\<lambda>(dependency, srcs). (dependent, dependency)) em)
               (dependencies st))"

definition graph_keys_ok :: "detector \<Rightarrow> bool" where
  "graph_keys_ok st =
     (distinct (map fst (dependencies st))
      \<and> list_all (\<lambda>(d, em). distinct (map fst em)) (dependencies st))"

text \<open>
  A dependency key is acceptable when it resolves to a commit that is not excluded.
\<close>

definition edge_target_ok :: "backend \<Rightarrow> options \<Rightarrow> sha \<Rightarrow> bool" where
  "edge_target_ok be opts y =
     (case ref_commit be y of
        None \<Rightarrow> False
      | Some dep \<Rightarrow> \<not> is_excluded_spec be opts (cid dep))"

definition no_excluded_edges :: "backend \<Rightarrow> options \<Rightarrow> detector \<Rightarrow> bool" where
  "no_excluded_edges be opts st =
     list_all (\<lambda>(d, em). list_all (\<lambda>(y, srcs). edge_target_ok be opts y) em) (dependencies st)"

text \<open>
  The hashes of a commit and of all its ancestors, the assumption that line attribution
  on a parent names only those, and the well-formedness of the history: the hash of a
  commit does not occur in the history of its parents.
\<close>

fun history :: "commit \<Rightarrow> sha set" where
  "history (Commit i ps t) = insert i (\<Union>p \<in> set ps. history p)"

definition blame_within_history :: "backend \<Rightarrow> options \<Rightarrow> bool" where
  "blame_within_history be opts =
     (\<forall>dependent \<in> ran (ref_commit be). \<forall>parent others p h.
        parents dependent = parent # others
        \<longrightarrow> (\<forall>bh \<in> set (run_blame be opts h parent p). orig_commit_id bh \<in> history parent))"

definition acyclic_history :: "backend \<Rightarrow> bool" where
  "acyclic_history be =
     (\<forall>dependent \<in> ran (ref_commit be). \<forall>parent \<in> set (parents dependent).
        cid dependent \<notin> history parent)"

definition no_self_edges :: "detector \<Rightarrow> bool" where
  "no_self_edges st = list_all (\<lambda>(d, em). \<not> has_key em d) (dependencies st)"

text \<open>
  Resolving a path in a tree, in the words of the specification: the path resolves to an
  entry when each segment is an entry of the tree reached so far and each segment but
  the last names a tree of the repository. \<open>gitlink_on_path\<close> tells whether the walk
  along the path meets an entry whose object the repository does not hold (a gitlink,
  the entry of a submodule).
\<close>

fun resolves :: "backend \<Rightarrow> git_object \<Rightarrow> string list \<Rightarrow> bool" where
  "resolves be obj [] = True"
| "resolves be Blob (dirent # segments) = False"
| "resolves be (Tree entries) (dirent # segments) =
     (case map_of entries dirent of
        None \<Rightarrow> False
      | Some oid \<Rightarrow>
          segments = []
          \<or> (case objects be oid of
                Some (Tree sub) \<Rightarrow> resolves be (Tree sub) segments
              | Some Blob \<Rightarrow> False
              | None \<Rightarrow> False))"

fun gitlink_on_path :: "backend \<Rightarrow> git_object \<Rightarrow> string list \<Rightarrow> bool" where
  "gitlink_on_path be obj [] = False"
| "gitlink_on_path be Blob (dirent # segments) = False"
| "gitlink_on_path be (Tree entries) (dirent # segments) =
     (case map_of entries dirent of
        None \<Rightarrow> False
      | Some oid \<Rightarrow>
          (case objects be oid of
             None \<Rightarrow> True
           | Some obj \<Rightarrow> gitlink_on_path be obj segments))"

definition path_resolves :: "backend \<Rightarrow> path \<Rightarrow> commit \<Rightarrow> bool" where
  "path_resolves be p c = resolves be (tree c) (split_slash p)"

text \<open>
  \<open>seeded\<close> is the state in which \<open>find_dependencies\<close> enters its loop: the commit
  the revision resolves to is appended to the worklist and entered in its dictionary.
\<close>

definition seeded :: "detector \<Rightarrow> commit \<Rightarrow> detector" where
  "seeded st dependent =
     st\<lparr>todo := todo st @ [dependent],
        todo_d := AList.update (cid dependent) True (todo_d st)\<rparr>"

text \<open>
  The history of the worklist over the first \<open>n\<close> turns of the loop from a state:
  \<open>turns\<close> is the state these turns lead to (a turn on an empty worklist changes
  nothing), \<open>pop_order\<close> the commits they pop and \<open>enqueue_order\<close> the commits they
  append to the worklist (what a turn leaves behind the rest of the queue it found),
  each in the order in which it happens.
\<close>

fun turns :: "backend \<Rightarrow> options \<Rightarrow> nat \<Rightarrow> detector \<Rightarrow> error + detector" where
  "turns be opts 0 st = Inr st"
| "turns be opts (Suc n) st =
     (case process_todo be opts st of
        Inl e \<Rightarrow> Inl e
      | Inr st1 \<Rightarrow> turns be opts n st1)"

fun pop_order :: "backend \<Rightarrow> options \<Rightarrow> nat \<Rightarrow> detector \<Rightarrow> commit list" where
  "pop_order be opts 0 st = []"
| "pop_order be opts (Suc n) st =
     (case todo st of
        [] \<Rightarrow> []
      | c # rest \<Rightarrow>
          c # (case process_todo be opts st of
                 Inl e \<Rightarrow> []
               | Inr st1 \<Rightarrow> pop_order be opts n st1))"

fun enqueue_order :: "backend \<Rightarrow> options \<Rightarrow> nat \<Rightarrow> detector \<Rightarrow> commit list" where
  "enqueue_order be opts 0 st = []"
| "enqueue_order be opts (Suc n) st =
     (case todo st of
        [] \<Rightarrow> []
      | c # rest \<Rightarrow>
          (case process_todo be opts st of
             Inl e \<Rightarrow> []
           | Inr st1 \<Rightarrow> drop (length rest) (todo st1) @ enqueue_order be opts n st1))"

text \<open>
  A well-formed worklist: its commits have distinct hashes, its dictionary holds exactly
  these hashes, and none of them is done. \<open>queue_ok_during\<close> is the same while a
  commit is being processed, which is then neither queued nor done.
  \<open>blame_names_ids\<close> says that line attribution names a commit by its hash: the
  revision it reports resolves to a commit that has this hash.
\<close>

definition queue_ok :: "detector \<Rightarrow> bool" where
  "queue_ok st =
     (distinct (map cid (todo st))
      \<and> (\<forall>k. has_key (todo_d st) k = (k \<in> cid ` set (todo st)))
      \<and> (\<forall>c \<in> set (todo st). \<not> has_key (done_d st) (cid c)))"

definition queue_ok_during :: "commit \<Rightarrow> detector \<Rightarrow> bool" where
  "queue_ok_during dependent st =
     (queue_ok st \<and> (\<forall>c \<in> set (todo st). cid c \<noteq> cid dependent))"

definition blame_names_ids :: "backend \<Rightarrow> options \<Rightarrow> bool" where
  "blame_names_ids be opts =
     (\<forall>dependent \<in> ran (ref_commit be). \<forall>parent others p h.
        parents dependent = parent # others
        \<longrightarrow> (\<forall>bh \<in> set (run_blame be opts h parent p). \<forall>c.
               ref_commit be (orig_commit_id bh) = Some c \<longrightarrow> cid c = orig_commit_id bh))"

section \<open>A small history used to run the model\<close>

text \<open>
  Three commits \<open>a \<leftarrow> b \<leftarrow> c\<close> on one file \<open>f\<close>: \<open>b\<close> changes line 1, which \<open>a\<close>
  introduced, and \<open>c\<close> changes line 2, which \<open>b\<close> introduced. The tree also holds an
  entry \<open>d\<close> that is a blob, so that \<open>d/f\<close> does not resolve.
\<close>

definition ex_tree :: git_object where
  "ex_tree = Tree [(''f'', ''o1''), (''d'', ''o2'')]"

definition commit_a :: commit where
  "commit_a = Commit ''a'' [] ex_tree"

definition commit_b :: commit where
  "commit_b = Commit ''b'' [commit_a] ex_tree"

definition commit_c :: commit where
  "commit_c = Commit ''c'' [commit_b] ex_tree"

definition ex_hunk :: "int \<Rightarrow> hunk" where
  "ex_hunk n = \<lparr>old_start = n, old_lines = 1, new_start = n, new_lines = 1,
                lines = [\<lparr>origin = CHR ''-'', content = ''x''\<rparr>,
                         \<lparr>origin = CHR ''+'', content = ''y''\<rparr>]\<rparr>"

definition ex_blame :: "path \<Rightarrow> sha \<Rightarrow> int \<Rightarrow> int \<Rightarrow> blame_hunk list" where
  "ex_blame p s lo n =
     (if s = ''b'' then [\<lparr>orig_start_line_number = 2, final_start_line_number = 2,
                          orig_commit_id = ''b'', lines_in_hunk = 1\<rparr>]
      else if s = ''a'' then [\<lparr>orig_start_line_number = 1, final_start_line_number = 1,
                               orig_commit_id = ''a'', lines_in_hunk = 1\<rparr>]
      else [])"

definition ex_backend :: backend where
  "ex_backend =
     \<lparr>ref_commit = map_of [(''a'', commit_a), (''b'', commit_b), (''c'', commit_c)],
      diff = (\<lambda>parent commit k.
                if cid commit = ''c'' then [\<lparr>old_file_path = ''f'', hunks = [ex_hunk 2]\<rparr>]
                else if cid commit = ''b'' then [\<lparr>old_file_path = ''f'', hunks = [ex_hunk 1]\<rparr>]
                else []),
      repo_blame = ex_blame,
      blame_via_subprocess = ex_blame,
      objects = map_of [(''o1'', Blob), (''o2'', Blob)],
      merge_base = (\<lambda>x y. if x = ''a'' \<or> y = ''a'' then Some ''a''
                            else if x = ''b'' \<or> y = ''b'' then Some ''b'' else Some ''c'')\<rparr>"

definition ex_options :: options where
  "ex_options = \<lparr>recurse = True, context_lines = 1, pygit2_blame = True,
                  exclude_commits = None\<rparr>"

definition ex_queue :: "commit list \<Rightarrow> detector" where
  "ex_queue cs = init\<lparr>todo := cs, todo_d := map (\<lambda>c. (cid c, True)) cs\<rparr>"

definition ex_recorded :: detector where
  "ex_recorded = init\<lparr>dependencies := [(''c'', [(''b'', [(''f'', [(2, ''b 2 2'')])])])]\<rparr>"

definition ex_two_edges :: detector where
  "ex_two_edges = init\<lparr>dependencies := [(''c'', [(''a'', []), (''b'', [])])]\<rparr>"

definition ex_options_excl :: options where
  "ex_options_excl = ex_options\<lparr>exclude_commits := Some [''a'']\<rparr>"

definition ex_after_a :: detector where
  "ex_after_a = init\<lparr>done_l := [''a''], done_d := [(''a'', True)],
                      commits := [(KStr ''a'', commit_a)],
                      events := [New_commit commit_a, Dependent_done commit_a [], All_done]\<rparr>"

text \<open>
  A history \<open>p \<leftarrow> q\<close> in which \<open>p\<close> has a submodule at \<open>m\<close> (an entry whose object
  is not in the repository) and \<open>q\<close> replaces it by a directory holding a new file \<open>x\<close>.
\<close>

definition ex_gitlink_parent :: commit where
  "ex_gitlink_parent = Commit ''p'' [] (Tree [(''m'', ''g'')])"

definition ex_gitlink_child :: commit where
  "ex_gitlink_child = Commit ''q'' [ex_gitlink_parent] (Tree [(''m'', ''t'')])"

definition ex_gitlink_backend :: backend where
  "ex_gitlink_backend =
     \<lparr>ref_commit = map_of [(''p'', ex_gitlink_parent), (''q'', ex_gitlink_child)],
      diff = (\<lambda>parent commit k.
                if cid commit = ''q''
                then [\<lparr>old_file_path = ''m/x'',
                       hunks = [\<lparr>old_start = 0, old_lines = 0, new_start = 1, new_lines = 1,
                                 lines = [\<lparr>origin = CHR ''+'', content = ''y''\<rparr>]\<rparr>]\<rparr>]
                else []),
      repo_blame = (\<lambda>p s lo hi. []),
      blame_via_subprocess = (\<lambda>p s lo n. []),
      objects = map_of [(''t'', Tree [(''x'', ''o'')]), (''o'', Blob)],
      merge_base = (\<lambda>x y. None)\<rparr>"

text \<open>The state in which the run from \<open>c\<close> on a new detector enters its loop.\<close>

definition ex_seeded_c :: detector where
  "ex_seeded_c = seeded (init\<lparr>commits := [(KStr ''c'', commit_c)]\<rparr>) commit_c"

section \<open>Properties\<close>

subsection \<open>Caches, frames and the lifting of invariants\<close>

lemma only_caches_refl [simp]: "only_caches st st"
  by (simp add: only_caches_def)

lemma only_caches_trans: "only_caches st st1 \<Longrightarrow> only_caches st1 st2 \<Longrightarrow> only_caches st st2"
  by (simp add: only_caches_def)

lemma cache_ok_init: "cache_ok be init"
  by (simp add: cache_ok_def init_def)

lemma get_commit_ok:
  assumes "cache_ok be st" "get_commit be st r = Inr (c, st')"
  shows "cache_ok be st' \<and> only_caches st st' \<and> ref_commit be r = Some c"
proof (cases "map_of (commits st) (KStr r)")
  case (Some c0)
  with assms show ?thesis
    by (auto simp: get_commit_def cache_ok_def)
next
  case None
  with assms obtain "ref_commit be r = Some c"
    and st': "st' = st\<lparr>commits := AList.update (KStr r) c (commits st)\<rparr>"
    by (auto simp: get_commit_def split: option.splits)
  then show ?thesis
    using assms(1) by (auto simp: cache_ok_def only_caches_def update_conv' split: if_splits)
qed

lemma branch_contains_ok:
  assumes "cache_ok be st" "branch_contains be st c branch = Inr (b, st')"
  shows "cache_ok be st' \<and> only_caches st st'
       \<and> (\<exists>bc. ref_commit be branch = Some bc \<and> b = (merge_base be (cid c) (cid bc) = Some (cid c)))"
proof -
  from assms(2) obtain bc st1 where gc: "get_commit be st branch = Inr (bc, st1)"
    by (auto simp: branch_contains_def split: sum.splits)
  from get_commit_ok [OF assms(1) gc]
  have ok1: "cache_ok be st1" and oc1: "only_caches st st1" and rc: "ref_commit be branch = Some bc"
    by simp_all
  define cache1 where "cache1 = (if \<not> has_key (branch_contains_cache st1) (cid c)
                         then AList.update (cid c) [] (branch_contains_cache st1)
                         else branch_contains_cache st1)"
  define row where "row = (case map_of cache1 (cid c) of Some r \<Rightarrow> r | None \<Rightarrow> [])"
  have c1: "\<forall>x rw y v. map_of cache1 x = Some rw \<longrightarrow> map_of rw y = Some v
            \<longrightarrow> v = (merge_base be x y = Some x)"
    using ok1 by (auto simp: cache1_def cache_ok_def update_conv' split: if_splits)
  have rowc: "map_of cache1 (cid c) = Some row"
    by (auto simp: row_def cache1_def has_key_def update_conv')
  show ?thesis
  proof (cases "map_of row (cid bc)")
    case (Some m)
    with assms(2) gc have "b = m" and "st' = st1\<lparr>branch_contains_cache := cache1\<rparr>"
      by (auto simp: branch_contains_def Let_def cache1_def row_def)
    moreover have "m = (merge_base be (cid c) (cid bc) = Some (cid c))"
      using c1 rowc Some by blast
    ultimately show ?thesis
      using ok1 oc1 c1 rc by (auto simp: cache_ok_def only_caches_def)
  next
    case None
    with assms(2) gc obtain out where mb: "merge_base be (cid c) (cid bc) = Some out"
      and b: "b = (out = cid c)"
      and st': "st' = st1\<lparr>branch_contains_cache :=
                 AList.update (cid c) (AList.update (cid bc) (out = cid c) row) cache1\<rparr>"
      by (auto simp: branch_contains_def Let_def cache1_def row_def split: option.splits)
    have "\<forall>x rw y v. map_of (branch_contains_cache st') x = Some rw \<longrightarrow> map_of rw y = Some v
            \<longrightarrow> v = (merge_base be x y = Some x)"
      using c1 rowc mb by (auto simp: st' update_conv' split: if_splits)
    then show ?thesis
      using ok1 oc1 rc mb b by (auto simp: cache_ok_def only_caches_def st')
  qed
qed

lemma is_excluded_loop_ok:
  "cache_ok be st \<Longrightarrow> is_excluded_loop be st c excl = Inr (b, st')
   \<Longrightarrow> cache_ok be st' \<and> only_caches st st' \<and> b = list_ex (excluded_by be (cid c)) excl"
proof (induction excl arbitrary: st)
  case Nil
  then show ?case by simp
next
  case (Cons x xs)
  from Cons.prems(2) obtain b1 st1 where bc: "branch_contains be st c x = Inr (b1, st1)"
    by (auto split: sum.splits)
  from branch_contains_ok [OF Cons.prems(1) bc]
  have ok1: "cache_ok be st1" and oc1: "only_caches st st1" and b1: "b1 = excluded_by be (cid c) x"
    by (auto simp: excluded_by_def)
  show ?case
  proof (cases b1)
    case True
    with Cons.prems(2) bc have "b = True" "st' = st1" by auto
    with ok1 oc1 b1 True show ?thesis by simp
  next
    case False
    with Cons.prems(2) bc have "is_excluded_loop be st1 c xs = Inr (b, st')" by simp
    from Cons.IH [OF ok1 this] oc1 b1 False show ?thesis
      by (auto intro: only_caches_trans)
  qed
qed

lemma is_excluded_ok:
  "cache_ok be st \<Longrightarrow> is_excluded be opts st c = Inr (b, st')
   \<Longrightarrow> cache_ok be st' \<and> only_caches st st' \<and> b = is_excluded_spec be opts (cid c)"
  by (cases "exclude_commits opts")
     (auto simp: is_excluded_def is_excluded_spec_def dest: is_excluded_loop_ok)

lemma get_commit_total:
  "ref_commit be r \<noteq> None \<Longrightarrow> \<exists>c st'. get_commit be st r = Inr (c, st')"
  by (auto simp: get_commit_def split: option.splits)

lemma branch_contains_total:
  assumes "cache_ok be st" "ref_commit be branch = Some bc" "merge_base be (cid c) (cid bc) \<noteq> None"
  shows "\<exists>b st'. branch_contains be st c branch = Inr (b, st')"
proof -
  from get_commit_total [of be branch st] assms(2)
  obtain bc' st1 where gc: "get_commit be st branch = Inr (bc', st1)" by auto
  with get_commit_ok [OF assms(1) gc] assms(2) have "bc' = bc" by simp
  with gc assms(3) show ?thesis
    by (auto simp: branch_contains_def Let_def split: option.splits)
qed

lemma is_excluded_loop_total:
  "cache_ok be st
   \<Longrightarrow> \<forall>x \<in> set excl. \<exists>bc. ref_commit be x = Some bc \<and> merge_base be (cid c) (cid bc) \<noteq> None
   \<Longrightarrow> \<exists>b st'. is_excluded_loop be st c excl = Inr (b, st')"
proof (induction excl arbitrary: st)
  case Nil
  show ?case by (rule exI [of _ False]) simp
next
  case (Cons x xs)
  then obtain bc where "ref_commit be x = Some bc" "merge_base be (cid c) (cid bc) \<noteq> None"
    by auto
  from branch_contains_total [OF Cons.prems(1) this]
  obtain b1 st1 where bc1: "branch_contains be st c x = Inr (b1, st1)" by auto
  from branch_contains_ok [OF Cons.prems(1) bc1] have "cache_ok be st1" by simp
  from Cons.IH [OF this] Cons.prems(2) bc1 show ?case by auto
qed

lemma frame_refl [simp]: "frame be st st"
  by (simp add: frame_def)

lemma frame_trans:
  assumes "frame be st st1" "frame be st1 st2"
  shows "frame be st st2"
proof -
  from assms(1) obtain n1 e1 where 1: "done_l st1 = done_l st" "done_d st1 = done_d st"
    "todo st1 = todo st @ n1" "set n1 \<subseteq> ran (ref_commit be)"
    "events st1 = events st @ e1" "All_done \<notin> set e1"
    unfolding frame_def by blast
  from assms(2) obtain n2 e2 where 2: "done_l st2 = done_l st1" "done_d st2 = done_d st1"
    "todo st2 = todo st1 @ n2" "set n2 \<subseteq> ran (ref_commit be)"
    "events st2 = events st1 @ e2" "All_done \<notin> set e2"
    unfolding frame_def by blast
  have "todo st2 = todo st @ (n1 @ n2) \<and> set (n1 @ n2) \<subseteq> ran (ref_commit be)"
    and "events st2 = events st @ (e1 @ e2) \<and> All_done \<notin> set (e1 @ e2)"
    using 1 2 by simp_all
  then have "\<exists>new. todo st2 = todo st @ new \<and> set new \<subseteq> ran (ref_commit be)"
    and "\<exists>evs. events st2 = events st @ evs \<and> All_done \<notin> set evs"
    by blast+
  then show ?thesis
    unfolding frame_def using 1(1,2) 2(1,2) by simp
qed

lemma only_caches_frame: "only_caches st st' \<Longrightarrow> frame be st st'"
  by (simp add: only_caches_def frame_def)

lemma seen_commit_object: "cache_ok be st \<Longrightarrow> \<not> seen_commit st (KCommit c)"
  by (cases "map_of (commits st) (KCommit c)") (auto simp: cache_ok_def seen_commit_def has_key_def)

lemma register_new_dependent_effect:
  "commits (register_new_dependent st dep d) = commits st
   \<and> branch_contains_cache (register_new_dependent st dep d) = branch_contains_cache st
   \<and> todo (register_new_dependent st dep d) = todo st
   \<and> todo_d (register_new_dependent st dep d) = todo_d st
   \<and> done_l (register_new_dependent st dep d) = done_l st
   \<and> done_d (register_new_dependent st dep d) = done_d st
   \<and> dependencies (register_new_dependent st dep d)
       = (if has_key (dependencies st) d then dependencies st
          else AList.update d [] (dependencies st))
   \<and> events (register_new_dependent st dep d)
       = events st @ (if has_key (dependencies st) d then [] else [New_dependent dep])"
  by (simp add: register_new_dependent_def notify_listeners_def)

lemma process_new_dependency_effect:
  assumes "\<not> seen_commit st (KCommit dependency)"
    and "process_new_dependency opts st dependent dsha dependency ysha p n = Inr st'"
  shows "\<exists>em. map_of (dependencies st) dsha = Some em
           \<and> dependencies st' = AList.update dsha (AList.update ysha [] em) (dependencies st)
           \<and> events st' = events st @ [New_commit dependency, New_dependency dependent dependency p n]
           \<and> commits st' = commits st \<and> branch_contains_cache st' = branch_contains_cache st
           \<and> done_l st' = done_l st \<and> done_d st' = done_d st
           \<and> (todo st' = todo st \<and> todo_d st' = todo_d st
               \<or> todo st' = todo st @ [dependency]
                 \<and> todo_d st' = AList.update (cid dependency) True (todo_d st)
                 \<and> recurse opts \<and> \<not> has_key (todo_d st) ysha \<and> \<not> has_key (done_d st) ysha)"
proof (cases "map_of (dependencies st) dsha")
  case None
  with assms show ?thesis
    by (simp add: process_new_dependency_def set_edge_def notify_listeners_def)
next
  case (Some em)
  define st2 where "st2 = st\<lparr>events := events st @ [New_commit dependency, New_dependency dependent dependency p n],
        dependencies := AList.update dsha (AList.update ysha [] em) (dependencies st)\<rparr>"
  have eq: "process_new_dependency opts st dependent dsha dependency ysha p n =
     (if has_key (todo_d st) ysha then Inr st2
      else if has_key (done_d st) ysha then Inr st2
      else if \<not> has_key (dependencies st2) ysha \<and> recurse opts
      then Inr (st2\<lparr>todo := todo st @ [dependency],
                    todo_d := AList.update (cid dependency) True (todo_d st)\<rparr>)
      else Inr st2)"
    using assms(1) Some
    by (simp add: process_new_dependency_def set_edge_def notify_listeners_def Let_def st2_def)
  consider (same) "st' = st2"
    | (enq) "st' = st2\<lparr>todo := todo st @ [dependency],
                    todo_d := AList.update (cid dependency) True (todo_d st)\<rparr>"
        "recurse opts" "\<not> has_key (todo_d st) ysha" "\<not> has_key (done_d st) ysha"
    using assms(2) unfolding eq by (simp split: if_splits)
  then show ?thesis
  proof cases
    case same
    then show ?thesis using Some by (simp add: st2_def)
  next
    case enq
    then show ?thesis using Some by (simp add: st2_def)
  qed
qed

lemma record_dependency_source_effect:
  assumes "record_dependency_source st dependent dsha dependency ysha p n line = Inr st'"
  shows "\<exists>em srcs. map_of (dependencies st) dsha = Some em \<and> map_of em ysha = Some srcs
           \<and> \<not> has_key (case map_of srcs p of Some ls \<Rightarrow> ls | None \<Rightarrow> []) n
           \<and> dependencies st'
               = AList.update dsha
                   (AList.update ysha
                      (AList.update p
                         (AList.update n line (case map_of srcs p of Some ls \<Rightarrow> ls | None \<Rightarrow> []))
                         srcs) em)
                   (dependencies st)
           \<and> events st'
               = events st @ (if has_key srcs p then [] else [New_path dependent dependency p n])
                   @ [New_line dependent dependency p n]
           \<and> commits st' = commits st \<and> branch_contains_cache st' = branch_contains_cache st
           \<and> done_l st' = done_l st \<and> done_d st' = done_d st
           \<and> todo st' = todo st \<and> todo_d st' = todo_d st"
proof -
  from assms obtain em where em: "map_of (dependencies st) dsha = Some em"
    by (auto simp: record_dependency_source_def split: option.splits)
  with assms obtain srcs where srcs: "map_of em ysha = Some srcs"
    by (auto simp: record_dependency_source_def split: option.splits)
  show ?thesis
  proof (cases "has_key srcs p")
    case True
    then obtain ls where "map_of srcs p = Some ls" by (auto simp: has_key_def)
    moreover from this have "AList.update p ls srcs = srcs" by (simp add: update_triv)
    ultimately show ?thesis
      using assms em srcs True
      by (auto simp: record_dependency_source_def set_edge_def notify_listeners_def Let_def abort_def
          split: if_splits)
  next
    case False
    then have "map_of srcs p = None" by (simp add: has_key_def)
    then show ?thesis
      using assms em srcs False
      by (auto simp: record_dependency_source_def set_edge_def notify_listeners_def Let_def abort_def
          update_conv' split: if_splits)
  qed
qed

lemma process_blame_hunk_cases:
  assumes "process_blame_hunk be opts st dependent dsha parent p bh ltc = Inr (st', ltc')"
  obtains (excluded) dep st1 where
      "get_commit be st (orig_commit_id bh) = Inr (dep, st1)"
      "is_excluded be opts st1 dep = Inr (True, st')"
    | (recorded) dep st1 st2 st3 em where
      "get_commit be st (orig_commit_id bh) = Inr (dep, st1)"
      "is_excluded be opts st1 dep = Inr (False, st2)"
      "map_of (dependencies st2) dsha = Some em"
      "\<not> has_key em (orig_commit_id bh)
         \<and> process_new_dependency opts st2 dependent dsha dep (orig_commit_id bh) p
             (final_start_line_number bh) = Inr st3
       \<or> has_key em (orig_commit_id bh) \<and> st3 = st2"
      "record_dependency_source st3 dependent dsha dep (orig_commit_id bh) p
         (final_start_line_number bh)
         (line_representation (orig_commit_id bh) (orig_start_line_number bh)
            (final_start_line_number bh)) = Inr st'"
proof -
  from assms obtain dep st1 where gc: "get_commit be st (orig_commit_id bh) = Inr (dep, st1)"
    by (cases "get_commit be st (orig_commit_id bh)")
       (auto simp: process_blame_hunk_def Let_def)
  from assms gc obtain ex st2 where ie: "is_excluded be opts st1 dep = Inr (ex, st2)"
    by (cases "is_excluded be opts st1 dep") (auto simp: process_blame_hunk_def Let_def)
  show thesis
  proof (cases ex)
    case True
    with assms gc ie have "st' = st2" by (simp add: process_blame_hunk_def Let_def)
    with True gc ie show thesis by (intro excluded) simp_all
  next
    case False
    from assms gc ie False obtain em where em: "map_of (dependencies st2) dsha = Some em"
      by (cases "map_of (dependencies st2) dsha") (auto simp: process_blame_hunk_def Let_def)
    define r where "r = (if \<not> has_key em (orig_commit_id bh)
         then process_new_dependency opts st2 dependent dsha dep (orig_commit_id bh) p
             (final_start_line_number bh)
         else Inr st2)"
    from assms gc ie False em obtain st3 where r: "r = Inr st3"
      by (cases r) (auto simp: process_blame_hunk_def Let_def r_def)
    with assms gc ie False em have "record_dependency_source st3 dependent dsha dep (orig_commit_id bh) p
         (final_start_line_number bh)
         (line_representation (orig_commit_id bh) (orig_start_line_number bh)
            (final_start_line_number bh)) = Inr st'"
      by (auto simp: process_blame_hunk_def Let_def r_def split: sum.splits)
    moreover from r have "\<not> has_key em (orig_commit_id bh)
         \<and> process_new_dependency opts st2 dependent dsha dep (orig_commit_id bh) p
             (final_start_line_number bh) = Inr st3
       \<or> has_key em (orig_commit_id bh) \<and> st3 = st2"
      by (auto simp: r_def split: if_splits)
    ultimately show thesis
      using gc ie False em by (intro recorded) simp_all
  qed
qed

lemma has_key_update: "has_key (AList.update k v al) k' = (k' = k \<or> has_key al k')"
  by (simp add: has_key_def update_conv')

lemma has_key_Some: "map_of al k = Some v \<Longrightarrow> has_key al k"
  by (simp add: has_key_def)

lemma cache_ok_cong:
  "commits st' = commits st \<Longrightarrow> branch_contains_cache st' = branch_contains_cache st
   \<Longrightarrow> cache_ok be st' = cache_ok be st"
  by (simp add: cache_ok_def)

lemma only_caches_keys: "only_caches st st' \<Longrightarrow> dependencies st' = dependencies st"
  by (simp add: only_caches_def)

lemma process_new_dependency_frame:
  assumes "\<not> seen_commit st (KCommit dep)" "dep \<in> ran (ref_commit be)"
    and "process_new_dependency opts st dependent dsha dep ysha p n = Inr st'"
  shows "frame be st st' \<and> commits st' = commits st
       \<and> branch_contains_cache st' = branch_contains_cache st
       \<and> (\<forall>d. has_key (dependencies st') d = has_key (dependencies st) d)"
proof -
  from process_new_dependency_effect [OF assms(1,3)] obtain em where
    em: "map_of (dependencies st) dsha = Some em"
    and deps: "dependencies st' = AList.update dsha (AList.update ysha [] em) (dependencies st)"
    and ev: "events st' = events st @ [New_commit dep, New_dependency dependent dep p n]"
    and same: "commits st' = commits st" "branch_contains_cache st' = branch_contains_cache st"
      "done_l st' = done_l st" "done_d st' = done_d st"
    and td: "todo st' = todo st @ [] \<or> todo st' = todo st @ [dep]"
    by auto
  from td assms(2) have "\<exists>new. todo st' = todo st @ new \<and> set new \<subseteq> ran (ref_commit be)"
    by auto
  moreover from ev have "\<exists>evs. events st' = events st @ evs \<and> All_done \<notin> set evs"
    by simp
  moreover have "\<forall>d. has_key (dependencies st') d = has_key (dependencies st) d"
    using em by (auto simp: deps has_key_update has_key_Some)
  ultimately show ?thesis
    using same by (simp add: frame_def)
qed

lemma record_dependency_source_frame:
  assumes "record_dependency_source st dependent dsha dep ysha p n line = Inr st'"
  shows "frame be st st' \<and> commits st' = commits st
       \<and> branch_contains_cache st' = branch_contains_cache st
       \<and> (\<forall>d. has_key (dependencies st') d = has_key (dependencies st) d)"
proof -
  from record_dependency_source_effect [OF assms] obtain em srcs where
    em: "map_of (dependencies st) dsha = Some em"
    and deps: "dependencies st' = AList.update dsha
                   (AList.update ysha
                      (AList.update p
                         (AList.update n line (case map_of srcs p of Some ls \<Rightarrow> ls | None \<Rightarrow> []))
                         srcs) em)
                   (dependencies st)"
    and ev: "events st' = events st @ (if has_key srcs p then [] else [New_path dependent dep p n])
                   @ [New_line dependent dep p n]"
    and same: "commits st' = commits st" "branch_contains_cache st' = branch_contains_cache st"
      "done_l st' = done_l st" "done_d st' = done_d st" "todo st' = todo st"
    by auto
  from ev have "\<exists>evs. events st' = events st @ evs \<and> All_done \<notin> set evs"
    by simp
  moreover have "\<forall>d. has_key (dependencies st') d = has_key (dependencies st) d"
    using em by (auto simp: deps has_key_update has_key_Some)
  ultimately show ?thesis
    using same by (simp add: frame_def)
qed

lemma process_blame_hunk_base:
  assumes "cache_ok be st"
    and "process_blame_hunk be opts st dependent dsha parent p bh ltc = Inr (st', ltc')"
  shows "cache_ok be st' \<and> frame be st st'
       \<and> (\<forall>d. has_key (dependencies st') d = has_key (dependencies st) d)"
  using assms(2)
proof (cases rule: process_blame_hunk_cases)
  case (excluded dep st1)
  from get_commit_ok [OF assms(1) excluded(1)]
  have 1: "cache_ok be st1" "only_caches st st1" by simp_all
  from is_excluded_ok [OF 1(1) excluded(2)]
  have 2: "cache_ok be st'" "only_caches st1 st'" by simp_all
  from only_caches_trans [OF 1(2) 2(2)] 2(1) show ?thesis
    by (simp add: only_caches_frame only_caches_keys)
next
  case (recorded dep st1 st2 st3 em)
  from get_commit_ok [OF assms(1) recorded(1)]
  have 1: "cache_ok be st1" "only_caches st st1" "dep \<in> ran (ref_commit be)"
    by (auto simp: ran_def)
  from is_excluded_ok [OF 1(1) recorded(2)]
  have 2: "cache_ok be st2" "only_caches st1 st2" by simp_all
  have 02: "only_caches st st2" using 1(2) 2(2) by (rule only_caches_trans)
  have 3: "frame be st2 st3 \<and> commits st3 = commits st2
       \<and> branch_contains_cache st3 = branch_contains_cache st2
       \<and> (\<forall>d. has_key (dependencies st3) d = has_key (dependencies st2) d)"
    using recorded(4) process_new_dependency_frame [OF seen_commit_object [OF 2(1)] 1(3)]
    by auto
  note 4 = record_dependency_source_frame [OF recorded(5), of be]
  have "cache_ok be st'"
    using 2(1) 3 4 cache_ok_cong [of st3 st2 be] cache_ok_cong [of st' st3 be] by simp
  moreover have "frame be st st'"
    using only_caches_frame [OF 02, of be] 3 4 by (blast intro: frame_trans)
  moreover have "\<forall>d. has_key (dependencies st') d = has_key (dependencies st) d"
    using only_caches_keys [OF 02] 3 4 by simp
  ultimately show ?thesis by simp
qed

lemma blame_loop_invariant:
  assumes "hunk_step_ok be opts I dependent parent"
  shows "set blame \<subseteq> set (run_blame be opts h parent p) \<Longrightarrow> I st \<Longrightarrow> cache_ok be st
    \<Longrightarrow> has_key (dependencies st) (cid dependent)
    \<Longrightarrow> blame_loop be opts st dependent (cid dependent) parent p blame ltc = Inr (st', ltc')
    \<Longrightarrow> I st' \<and> cache_ok be st' \<and> frame be st st'
        \<and> (\<forall>d. has_key (dependencies st') d = has_key (dependencies st) d)"
proof (induction blame arbitrary: st ltc)
  case Nil
  then show ?case by simp
next
  case (Cons bh blame)
  from Cons.prems(5) obtain st1 ltc1 where
    1: "process_blame_hunk be opts st dependent (cid dependent) parent p bh ltc = Inr (st1, ltc1)"
    and 2: "blame_loop be opts st1 dependent (cid dependent) parent p blame ltc1 = Inr (st', ltc')"
    by (auto split: sum.splits)
  from Cons.prems(1) have bh: "bh \<in> set (run_blame be opts h parent p)" by simp
  have I1: "I st1"
    by (rule assms [unfolded hunk_step_ok_def, rule_format, OF Cons.prems(2,3,4) bh 1])
  note b1 = process_blame_hunk_base [OF Cons.prems(3) 1]
  from b1 Cons.prems(4) have k1: "has_key (dependencies st1) (cid dependent)" by simp
  from Cons.prems(1) have sub: "set blame \<subseteq> set (run_blame be opts h parent p)" by simp
  from b1 have c1: "cache_ok be st1" and f1: "frame be st st1" by simp_all
  from Cons.IH [OF sub I1 c1 k1 2]
  have r: "I st'" "cache_ok be st'" "frame be st1 st'"
    "\<forall>d. has_key (dependencies st') d = has_key (dependencies st1) d"
    by simp_all
  from frame_trans [OF f1 r(3)] r b1 show ?case by simp
qed

lemma register_new_dependent_base:
  "cache_ok be (register_new_dependent st dep d) = cache_ok be st
   \<and> frame be st (register_new_dependent st dep d)
   \<and> has_key (dependencies (register_new_dependent st dep d)) d
   \<and> (\<forall>k. has_key (dependencies (register_new_dependent st dep d)) k
          = (k = d \<or> has_key (dependencies st) k))"
proof -
  note e = register_new_dependent_effect [of st dep d]
  have "cache_ok be (register_new_dependent st dep d) = cache_ok be st"
    using e by (intro cache_ok_cong) simp_all
  moreover have "frame be st (register_new_dependent st dep d)"
    using e by (simp add: frame_def)
  moreover have "\<forall>k. has_key (dependencies (register_new_dependent st dep d)) k
          = (k = d \<or> has_key (dependencies st) k)"
    using e by (auto simp: has_key_update)
  ultimately show ?thesis by simp
qed

lemma blame_diff_hunk_invariant:
  assumes "hunk_step_ok be opts I dependent parent" "register_ok I dependent"
    and "I st" "cache_ok be st"
    and "blame_diff_hunk be opts st dependent parent p h = Inr st'"
  shows "I st' \<and> cache_ok be st' \<and> frame be st st'
       \<and> (\<forall>d. has_key (dependencies st') d \<longrightarrow> d = cid dependent \<or> has_key (dependencies st) d)"
proof -
  from assms(5) obtain found where tl: "tree_lookup be p parent = Inr found"
    by (cases "tree_lookup be p parent") (auto simp: blame_diff_hunk_def)
  show ?thesis
  proof (cases "truthy found")
    case False
    with assms(5) tl have "st' = st" by (simp add: blame_diff_hunk_def)
    with assms(3,4) show ?thesis by simp
  next
    case True
    define st1 where "st1 = register_new_dependent st dependent (cid dependent)"
    from assms(5) tl True obtain ltc' where
      bl: "blame_loop be opts st1 dependent (cid dependent) parent p (run_blame be opts h parent p) []
           = Inr (st', ltc')"
      by (auto simp: blame_diff_hunk_def Let_def st1_def split: sum.splits prod.splits)
    note r = register_new_dependent_base [of be st dependent "cid dependent", folded st1_def]
    have I1: "I st1" using assms(2,3) by (simp add: register_ok_def st1_def)
    have c1: "cache_ok be st1" using r assms(4) by simp
    have k1: "has_key (dependencies st1) (cid dependent)" using r by simp
    from blame_loop_invariant [OF assms(1) subset_refl I1 c1 k1 bl]
    have q: "I st'" "cache_ok be st'" "frame be st1 st'"
        "\<forall>d. has_key (dependencies st') d = has_key (dependencies st1) d"
      by simp_all
    from r have f1: "frame be st st1" by simp
    from frame_trans [OF f1 q(3)] q r show ?thesis by simp
  qed
qed

lemma inner_post_refl: "I st \<Longrightarrow> cache_ok be st \<Longrightarrow> inner_post be I dependent st st"
  by (simp add: inner_post_def)

lemma inner_post_trans:
  assumes "inner_post be I dependent st st1" "inner_post be I dependent st1 st2"
  shows "inner_post be I dependent st st2"
proof -
  have "frame be st st2"
    using assms by (intro frame_trans [of be st st1 st2]) (simp_all add: inner_post_def)
  then show ?thesis
    using assms unfolding inner_post_def by blast
qed

lemma hunks_loop_invariant:
  assumes "hunk_step_ok be opts I dependent parent" "register_ok I dependent"
  shows "I st \<Longrightarrow> cache_ok be st
    \<Longrightarrow> hunks_loop be opts st dependent parent p hs = Inr st'
    \<Longrightarrow> inner_post be I dependent st st'"
proof (induction hs arbitrary: st)
  case Nil
  then show ?case by (simp add: inner_post_refl)
next
  case (Cons h hs)
  from Cons.prems(3) obtain st1 where
    1: "blame_diff_hunk be opts st dependent parent p h = Inr st1"
    and 2: "hunks_loop be opts st1 dependent parent p hs = Inr st'"
    by (auto split: sum.splits)
  from blame_diff_hunk_invariant [OF assms Cons.prems(1,2) 1]
  have p1: "inner_post be I dependent st st1" by (simp add: inner_post_def)
  then have "I st1" "cache_ok be st1" by (simp_all add: inner_post_def)
  from Cons.IH [OF this 2] p1 show ?case by (blast intro: inner_post_trans)
qed

lemma patches_loop_invariant:
  assumes "hunk_step_ok be opts I dependent parent" "register_ok I dependent"
  shows "I st \<Longrightarrow> cache_ok be st
    \<Longrightarrow> patches_loop be opts st dependent parent pts = Inr st'
    \<Longrightarrow> inner_post be I dependent st st'"
proof (induction pts arbitrary: st)
  case Nil
  then show ?case by (simp add: inner_post_refl)
next
  case (Cons pt pts)
  from Cons.prems(3) obtain st1 where
    1: "hunks_loop be opts st dependent parent (old_file_path pt) (hunks pt) = Inr st1"
    and 2: "patches_loop be opts st1 dependent parent pts = Inr st'"
    by (auto split: sum.splits)
  from hunks_loop_invariant [OF assms Cons.prems(1,2) 1]
  have p1: "inner_post be I dependent st st1" .
  then have "I st1" "cache_ok be st1" by (simp_all add: inner_post_def)
  from Cons.IH [OF this 2] p1 show ?case by (blast intro: inner_post_trans)
qed

lemma find_dependencies_with_parent_invariant:
  assumes "hunk_step_ok be opts I dependent parent" "register_ok I dependent"
    and "I st" "cache_ok be st"
    and "find_dependencies_with_parent be opts st dependent parent = Inr st'"
  shows "inner_post be I dependent st st'"
  using patches_loop_invariant [OF assms(1-4)] assms(5)
  by (simp add: find_dependencies_with_parent_def)

lemma process_todo_cases:
  assumes "todo st = dependent # rest" "process_todo be opts st = Inr st'"
  obtains (skipped) "has_key (todo_d st) (cid dependent)" "has_key (done_d st) (cid dependent)"
      "st' = popped st"
    | (root) "has_key (todo_d st) (cid dependent)" "\<not> has_key (done_d st) (cid dependent)"
      "parents dependent = []"
      "st' = finished dependent (notify_listeners (New_commit dependent) (popped st))"
    | (child) parent others st2 where
      "has_key (todo_d st) (cid dependent)" "\<not> has_key (done_d st) (cid dependent)"
      "parents dependent = parent # others"
      "find_dependencies_with_parent be opts (notify_listeners (New_commit dependent) (popped st))
         dependent parent = Inr st2"
      "st' = finished dependent st2"
proof -
  have k: "has_key (todo_d st) (cid dependent)"
    using assms by (auto simp: process_todo_def Let_def split: if_splits)
  have p: "popped st = st\<lparr>todo := rest, todo_d := AList.delete (cid dependent) (todo_d st)\<rparr>"
    using assms(1) by (simp add: popped_def)
  show thesis
  proof (cases "has_key (done_d st) (cid dependent)")
    case True
    with assms k have "st' = popped st" by (simp add: process_todo_def Let_def p)
    with k True show thesis by (rule skipped)
  next
    case False
    show thesis
    proof (cases "parents dependent")
      case Nil
      with assms k False
      have "st' = finished dependent (notify_listeners (New_commit dependent) (popped st))"
        by (simp add: process_todo_def Let_def p finished_def edges_of_def notify_listeners_def)
      with k False Nil show thesis by (rule root)
    next
      case (Cons parent others)
      with assms k False obtain st2 where
        f: "find_dependencies_with_parent be opts
              (notify_listeners (New_commit dependent) (popped st)) dependent parent = Inr st2"
        by (cases "find_dependencies_with_parent be opts
              (notify_listeners (New_commit dependent) (popped st)) dependent parent")
           (auto simp: process_todo_def Let_def p)
      with assms k False Cons have "st' = finished dependent st2"
        by (simp add: process_todo_def Let_def p finished_def edges_of_def notify_listeners_def)
      with k False Cons f show thesis by (rule child)
    qed
  qed
qed

lemma popped_fields:
  "dependencies (popped st) = dependencies st" "commits (popped st) = commits st"
  "branch_contains_cache (popped st) = branch_contains_cache st"
  "done_l (popped st) = done_l st" "done_d (popped st) = done_d st"
  "events (popped st) = events st" "todo (popped st) = tl (todo st)"
  by (simp_all add: popped_def)

lemma notify_fields:
  "dependencies (notify_listeners e st) = dependencies st"
  "commits (notify_listeners e st) = commits st"
  "branch_contains_cache (notify_listeners e st) = branch_contains_cache st"
  "done_l (notify_listeners e st) = done_l st" "done_d (notify_listeners e st) = done_d st"
  "events (notify_listeners e st) = events st @ [e]" "todo (notify_listeners e st) = todo st"
  "todo_d (notify_listeners e st) = todo_d st"
  by (simp_all add: notify_listeners_def)

lemma finished_fields:
  "dependencies (finished c st) = dependencies st" "commits (finished c st) = commits st"
  "branch_contains_cache (finished c st) = branch_contains_cache st"
  "done_l (finished c st) = done_l st @ [cid c]"
  "done_d (finished c st) = AList.update (cid c) True (done_d st)"
  "events (finished c st) = events st @ [Dependent_done c (edges_of st (cid c))]"
  "todo (finished c st) = todo st" "todo_d (finished c st) = todo_d st"
  by (simp_all add: finished_def notify_listeners_def)

lemma process_todo_invariant:
  assumes ok: "run_step_ok be opts I"
    and I: "I st" and c: "cache_ok be st" and t: "set (todo st) \<subseteq> ran (ref_commit be)"
    and ne: "todo st \<noteq> []" and run: "process_todo be opts st = Inr st'"
  shows "I st' \<and> turn_post be st st'"
proof -
  from ne obtain dependent rest where td: "todo st = dependent # rest"
    by (cases "todo st") auto
  from t td have dr: "dependent \<in> ran (ref_commit be)" and rr: "set rest \<subseteq> ran (ref_commit be)"
    by simp_all
  from ok have go: "graph_only I" by (simp add: run_step_ok_def)
  have hd: "hd (todo st) = dependent" "tl (todo st) = rest" using td by simp_all
  from td run show ?thesis
  proof (cases rule: process_todo_cases)
    case skipped
    have "I st'" using go I skipped(3) unfolding graph_only_def
      by (metis popped_fields(1))
    moreover have "cache_ok be st'"
      using c skipped(3) cache_ok_cong [of "popped st" st be] by (simp add: popped_fields)
    ultimately show ?thesis
      using skipped rr by (simp add: turn_post_def popped_fields hd)
  next
    case root
    define st1 where "st1 = notify_listeners (New_commit dependent) (popped st)"
    have d1: "dependencies st' = dependencies st"
      by (simp add: root(4) finished_fields notify_fields popped_fields)
    have "I st'" using go I d1 unfolding graph_only_def by blast
    moreover have "cache_ok be st'"
      using c cache_ok_cong [of st' st be]
      by (simp add: root(4) finished_fields notify_fields popped_fields)
    ultimately show ?thesis
      using root(2) rr d1
      by (simp add: turn_post_def root(4) finished_fields notify_fields popped_fields hd)
  next
    case (child parent others st2)
    define st1 where "st1 = notify_listeners (New_commit dependent) (popped st)"
    have I1: "I st1" using go I unfolding graph_only_def st1_def
      by (metis notify_fields(1) popped_fields(1))
    have c1: "cache_ok be st1"
      using c cache_ok_cong [of st1 st be] by (simp add: st1_def notify_fields popped_fields)
    from ok dr child(3) have h: "hunk_step_ok be opts I dependent parent"
      and r: "register_ok I dependent"
      by (auto simp: run_step_ok_def)
    from find_dependencies_with_parent_invariant [OF h r I1 c1 child(4) [folded st1_def]]
    have I2: "I st2" and c2: "cache_ok be st2" and f2: "frame be st1 st2"
      and k2: "\<forall>d. has_key (dependencies st2) d \<longrightarrow> d = cid dependent \<or> has_key (dependencies st1) d"
      by (simp_all add: inner_post_def)
    from f2 obtain new evs where n: "todo st2 = rest @ new" "set new \<subseteq> ran (ref_commit be)"
      and e: "events st2 = events st @ New_commit dependent # evs" "All_done \<notin> set evs"
      and dn: "done_l st2 = done_l st" "done_d st2 = done_d st"
      by (auto simp: frame_def st1_def notify_fields popped_fields hd)
    have "I st'" using go I2 child(5) unfolding graph_only_def
      by (metis finished_fields(1))
    moreover have "cache_ok be st'"
      using c2 cache_ok_cong [of st' st2 be] by (simp add: child(5) finished_fields)
    moreover have "\<forall>d. has_key (dependencies st') d
            \<longrightarrow> has_key (dependencies st) d \<or> has_key (done_d st') d"
      using k2 by (auto simp: child(5) finished_fields st1_def notify_fields popped_fields
          has_key_update)
    moreover have "\<exists>es. events st' = events st @ es \<and> All_done \<notin> set es"
      using e by (simp add: child(5) finished_fields)
    ultimately show ?thesis
      using child(2) rr n dn
      by (simp add: turn_post_def child(5) finished_fields hd)
  qed
qed

lemma todo_loop_invariant:
  assumes step: "\<And>s s1. J s \<Longrightarrow> todo s \<noteq> [] \<Longrightarrow> process_todo be opts s = Inr s1 \<Longrightarrow> J s1"
    and run: "todo_loop be opts st = Some (Inr st')" and J: "J st"
  shows "J st' \<and> todo st' = []"
proof -
  have "be = be \<and> opts = opts
          \<longrightarrow> (\<forall>s'. (Inr st' :: error + detector) = Inr s' \<longrightarrow> J st \<longrightarrow> J s' \<and> todo s' = [])"
  proof (rule todo_loop.raw_induct
      [where P = "\<lambda>b op s y. b = be \<and> op = opts
                    \<longrightarrow> (\<forall>s'. y = Inr s' \<longrightarrow> J s \<longrightarrow> J s' \<and> todo s' = [])", OF _ run])
    fix loop :: "backend \<Rightarrow> options \<Rightarrow> detector \<Rightarrow> (error + detector) option"
    fix b op s y
    assume IH: "\<And>b op s y. loop b op s = Some y \<Longrightarrow> b = be \<and> op = opts
                    \<longrightarrow> (\<forall>s'. y = Inr s' \<longrightarrow> J s \<longrightarrow> J s' \<and> todo s' = [])"
      and body: "(if todo s = [] then Some (Inr s)
                  else case process_todo b op s of Inl e \<Rightarrow> Some (Inl e)
                       | Inr st1 \<Rightarrow> loop b op st1) = Some y"
    show "b = be \<and> op = opts \<longrightarrow> (\<forall>s'. y = Inr s' \<longrightarrow> J s \<longrightarrow> J s' \<and> todo s' = [])"
    proof (intro impI allI, elim conjE)
      fix s' assume eq: "b = be" "op = opts" and y: "y = Inr s'" and Js: "J s"
      show "J s' \<and> todo s' = []"
      proof (cases "todo s = []")
        case True
        with body y have "s' = s" by simp
        with True Js show ?thesis by simp
      next
        case False
        with body obtain s1 where p: "process_todo b op s = Inr s1" and l: "loop b op s1 = Some y"
          by (cases "process_todo b op s") (auto simp: y)
        from step [OF Js False p [unfolded eq]] have "J s1" .
        with IH [OF l] eq y show ?thesis by simp
      qed
    qed
  qed
  with J show ?thesis by simp
qed

lemma has_key_iff: "has_key al k = (k \<in> fst ` set al)"
  by (simp add: has_key_def map_of_eq_None_iff)

lemma turn_post_measure:
  assumes fin: "finite (ran (ref_commit be))" and t: "set (todo st) \<subseteq> ran (ref_commit be)"
    and ne: "todo st \<noteq> []" and tp: "turn_post be st st'"
  shows "(todo_measure be st', todo_measure be st) \<in> less_than <*lex*> less_than"
proof -
  let ?U = "cid ` ran (ref_commit be)"
  from tp consider
    (skip) "done_d st' = done_d st" "todo st' = tl (todo st)"
    | (proc) "\<not> has_key (done_d st) (cid (hd (todo st)))"
        "done_d st' = AList.update (cid (hd (todo st))) True (done_d st)"
    unfolding turn_post_def by blast
  then show ?thesis
  proof cases
    case skip
    with ne show ?thesis by (simp add: todo_measure_def)
  next
    case proc
    let ?k = "cid (hd (todo st))"
    from ne t have "hd (todo st) \<in> ran (ref_commit be)"
      by (cases "todo st") auto
    then have kU: "?k \<in> ?U" by simp
    have kD: "?k \<notin> fst ` set (done_d st)" using proc(1) by (simp add: has_key_iff)
    have "fst ` set (done_d st') = insert ?k (fst ` set (done_d st))"
      by (simp add: proc(2) dom_update)
    then have "?U - fst ` set (done_d st') \<subset> ?U - fst ` set (done_d st)"
      using kU kD by auto
    moreover have "finite (?U - fst ` set (done_d st))" using fin by simp
    ultimately have "card (?U - fst ` set (done_d st')) < card (?U - fst ` set (done_d st))"
      by (rule psubset_card_mono [rotated])
    then show ?thesis by (simp add: todo_measure_def)
  qed
qed

lemma todo_loop_terminates:
  assumes fin: "finite (ran (ref_commit be))"
    and step: "\<And>s s1. J s \<Longrightarrow> todo s \<noteq> [] \<Longrightarrow> process_todo be opts s = Inr s1
                 \<Longrightarrow> J s1 \<and> turn_post be s s1"
    and sub: "\<And>s. J s \<Longrightarrow> set (todo s) \<subseteq> ran (ref_commit be)"
  shows "J st \<Longrightarrow> \<exists>r. todo_loop be opts st = Some r"
proof (induction st rule: wf_induct_rule
    [OF wf_inv_image [OF wf_lex_prod [OF wf_less_than wf_less_than], of "todo_measure be"]])
  case (1 st)
  show ?case
  proof (cases "todo st = []")
    case True
    then show ?thesis by (subst todo_loop.simps) simp
  next
    case False
    show ?thesis
    proof (cases "process_todo be opts st")
      case (Inl e)
      with False show ?thesis by (subst todo_loop.simps) simp
    next
      case (Inr s1)
      from step [OF "1.prems" False Inr] have J1: "J s1" and tp: "turn_post be st s1"
        by simp_all
      from turn_post_measure [OF fin sub [OF "1.prems"] False tp]
      have "(s1, st) \<in> inv_image (less_than <*lex*> less_than) (todo_measure be)"
        by (simp add: inv_image_def)
      from "1.IH" [OF this J1] obtain r where "todo_loop be opts s1 = Some r" ..
      with False Inr show ?thesis by (subst todo_loop.simps) simp
    qed
  qed
qed

subsection \<open>Paths that do not resolve in the parent's tree\<close>

lemma tree_walk_objects:
  "objects be' = objects be \<Longrightarrow> tree_walk be' obj segs = tree_walk be obj segs"
  by (induction be obj segs rule: tree_walk.induct)
     (auto split: git_object.splits option.splits)

lemma tree_lookup_objects:
  "objects be' = objects be \<Longrightarrow> tree_lookup be' p c = tree_lookup be p c"
  using tree_walk_objects [of be' be] by (simp add: tree_lookup_def)

lemma tree_walk_absent:
  "map_of entries dirent = None \<Longrightarrow> tree_walk be (Tree entries) (dirent # segments) = Inr None"
  by simp

lemma tree_walk_not_a_tree: "tree_walk be Blob (dirent # segments) = Inr None"
  by simp

lemma blame_diff_hunk_skip:
  assumes "tree_lookup be p parent = Inr None"
  shows "blame_diff_hunk be opts st dependent parent p h = Inr st
       \<and> blame_diff_hunk (be\<lparr>repo_blame := bl, blame_via_subprocess := bs\<rparr>) opts st
            dependent parent p h = Inr st
       \<and> hunks_loop be opts st dependent parent p (h # hs)
           = hunks_loop be opts st dependent parent p hs"
proof -
  have "tree_lookup (be\<lparr>repo_blame := bl, blame_via_subprocess := bs\<rparr>) p parent = Inr None"
    using assms
      tree_lookup_objects [of "be\<lparr>repo_blame := bl, blame_via_subprocess := bs\<rparr>" be p parent]
    by simp
  then show ?thesis
    using assms by (simp add: blame_diff_hunk_def)
qed

subsection \<open>The \<open>recurse\<close> argument\<close>

text \<open>
  C6. The \<open>recurse\<close> argument of \<open>find_dependencies\<close> has no effect: a run gives the
  same outcome (graph, worklist, notifications, error) whatever is passed for it.
  Whether a discovered dependency is enqueued is decided by \<open>options.recurse\<close> in
  \<open>process_new_dependency\<close>: with \<open>options.recurse\<close> false the worklist is left alone.
\<close>

theorem recurse_argument_ignored:
  "find_dependencies be opts st dependent_rev recurse_arg
     = find_dependencies be opts st dependent_rev None
   \<and> (\<forall>st'. \<not> recurse opts \<longrightarrow>
          process_new_dependency opts st dependent dependent_sha dependency dependency_sha
            p line_num = Inr st' \<longrightarrow> todo st' = todo st \<and> todo_d st' = todo_d st)"
  by (auto simp: find_dependencies_def process_new_dependency_def Let_def set_edge_def
        notify_listeners_def split: if_splits option.splits sum.splits)

theorem recurse_argument_ignored_witness:
  "\<not> recurse (ex_options\<lparr>recurse := False\<rparr>)
   \<and> map_option (map_sum id done_l)
        (find_dependencies ex_backend ex_options init ''c'' (Some False))
       = Some (Inr [''c'', ''b'', ''a''])
   \<and> map_sum id todo
        (process_new_dependency (ex_options\<lparr>recurse := False\<rparr>)
           (register_new_dependent init commit_c ''c'') commit_c ''c'' commit_b ''b'' ''f'' 2)
       = Inr []"
proof -
  have run: "map_option (map_sum id done_l) (find_dependencies ex_backend ex_options init ''c'' None)
             = Some (Inr [''c'', ''b'', ''a''])"
    by code_simp
  have ret: "\<not> isl (process_new_dependency (ex_options\<lparr>recurse := False\<rparr>)
               (register_new_dependent init commit_c ''c'') commit_c ''c'' commit_b ''b'' ''f'' 2)"
    by code_simp
  have empty: "todo (register_new_dependent init commit_c ''c'') = []"
    by code_simp
  obtain st' where st':
    "process_new_dependency (ex_options\<lparr>recurse := False\<rparr>)
       (register_new_dependent init commit_c ''c'') commit_c ''c'' commit_b ''b'' ''f'' 2 = Inr st'"
    using ret
    by (cases "process_new_dependency (ex_options\<lparr>recurse := False\<rparr>)
                 (register_new_dependent init commit_c ''c'') commit_c ''c'' commit_b ''b'' ''f'' 2")
       simp_all
  show ?thesis
    using run st' empty
      recurse_argument_ignored [where be = ex_backend and opts = ex_options and st = init
        and dependent_rev = "''c''" and recurse_arg = "Some False"]
      recurse_argument_ignored [where opts = "ex_options\<lparr>recurse := False\<rparr>"
        and st = "register_new_dependent init commit_c ''c''" and dependent = commit_c
        and dependent_sha = "''c''" and dependency = commit_b and dependency_sha = "''b''"
        and p = "''f''" and line_num = 2]
    by simp
qed

lemma run_step_ok_True: "run_step_ok be opts (\<lambda>s. True)"
  by (simp add: run_step_ok_def graph_only_def register_ok_def hunk_step_ok_def)

lemma registered_done_iff:
  "registered_done st = (\<forall>d. has_key (dependencies st) d \<longrightarrow> has_key (done_d st) d)"
  by (auto simp: registered_done_def list_all_iff has_key_iff)

lemma process_new_dependency_todo:
  assumes "process_new_dependency opts st dependent dsha dependency ysha p n = Inr st'"
  shows "todo st' = todo st \<and> todo_d st' = todo_d st
       \<or> \<not> has_key (todo_d st) ysha \<and> \<not> has_key (done_d st) ysha \<and> recurse opts
         \<and> todo st' = todo st @ [dependency]
         \<and> todo_d st' = AList.update (cid dependency) True (todo_d st)"
proof (cases "seen_commit st (KCommit dependency)")
  case True
  with assms show ?thesis
    by (auto simp: process_new_dependency_def notify_listeners_def Let_def split: if_splits)
next
  case False
  from process_new_dependency_effect [OF False assms] show ?thesis by auto
qed

lemma process_todo_root:
  assumes "todo st = c # rest" "parents c = []" "has_key (todo_d st) (cid c)"
    "\<not> has_key (done_d st) (cid c)"
  shows "process_todo be opts st
         = Inr (finished c (notify_listeners (New_commit c) (popped st)))"
proof -
  have p: "popped st = st\<lparr>todo := rest, todo_d := AList.delete (cid c) (todo_d st)\<rparr>"
    using assms(1) by (simp add: popped_def)
  show ?thesis
    using assms
    by (simp add: process_todo_def Let_def p finished_def edges_of_def notify_listeners_def)
qed

subsection \<open>Root commits\<close>

text \<open>
  C8. A turn of the worklist loop on a commit without parents, not yet done, in a state
  where every registered dependent is done (\<open>registered_done\<close>, which holds initially and
  after every turn): the turn returns normally, the result does not depend on the diff
  and line attribution functions of the backend (none is called), the graph is
  unchanged, the commit is appended to the done list and entered in the done
  dictionary, and the notifications are \<open>new_commit\<close> for it followed by
  \<open>dependent_done\<close> with an empty edge map.
\<close>

theorem root_commit_no_edges:
  assumes "todo st = c # rest" and "parents c = []"
    and "has_key (todo_d st) (cid c)" and "\<not> has_key (done_d st) (cid c)"
    and "registered_done st"
  shows "\<exists>st'. process_todo be opts st = Inr st'
           \<and> process_todo (be\<lparr>diff := df, repo_blame := bl, blame_via_subprocess := bs\<rparr>) opts st
               = Inr st'
           \<and> dependencies st' = dependencies st
           \<and> done_l st' = done_l st @ [cid c] \<and> has_key (done_d st') (cid c)
           \<and> events st' = events st @ [New_commit c, Dependent_done c []]"
proof -
  from assms(4,5) have "\<not> has_key (dependencies st) (cid c)"
    by (auto simp: registered_done_iff)
  then have e: "edges_of (notify_listeners (New_commit c) (popped st)) (cid c) = []"
    by (simp add: edges_of_def notify_fields popped_fields has_key_def)
  show ?thesis
    using e
    by (simp add: process_todo_root [OF assms(1-4)] finished_fields notify_fields popped_fields
        has_key_update)
qed

lemma run_inv_init: "run_inv be init"
  by (simp add: run_inv_def cache_ok_def done_ok_def registered_done_def init_def)

lemma turn_post_done_ok:
  assumes "turn_post be st st'" "done_ok st"
  shows "done_ok st'"
proof -
  from assms(1) consider
    (skip) "done_l st' = done_l st" "done_d st' = done_d st"
    | (proc) "\<not> has_key (done_d st) (cid (hd (todo st)))"
        "done_l st' = done_l st @ [cid (hd (todo st))]"
        "done_d st' = AList.update (cid (hd (todo st))) True (done_d st)"
    unfolding turn_post_def by blast
  then show ?thesis
  proof cases
    case skip
    with assms(2) show ?thesis by (simp add: done_ok_def)
  next
    case proc
    with assms(2) show ?thesis
      by (auto simp: done_ok_def has_key_iff dom_update)
  qed
qed

lemma turn_post_registered_done:
  assumes "turn_post be st st'" "registered_done st"
  shows "registered_done st'"
proof -
  from assms(1) have k: "\<forall>d. has_key (dependencies st') d
            \<longrightarrow> has_key (dependencies st) d \<or> has_key (done_d st') d"
    and d: "done_d st' = done_d st
            \<or> done_d st' = AList.update (cid (hd (todo st))) True (done_d st)"
    unfolding turn_post_def by blast+
  from d have "\<forall>d. has_key (done_d st) d \<longrightarrow> has_key (done_d st') d"
    by (auto simp: has_key_update)
  with k assms(2) show ?thesis
    unfolding registered_done_iff by blast
qed

lemma process_todo_run_inv:
  assumes "run_inv be st" "todo st \<noteq> []" "process_todo be opts st = Inr st'"
  shows "run_inv be st' \<and> turn_post be st st'"
proof -
  from assms(1) have c: "cache_ok be st" and t: "set (todo st) \<subseteq> ran (ref_commit be)"
    and d: "done_ok st" and r: "registered_done st"
    by (simp_all add: run_inv_def)
  from process_todo_invariant [OF run_step_ok_True _ c t assms(2,3)]
  have tp: "turn_post be st st'" by simp
  then have "cache_ok be st'" "set (todo st') \<subseteq> ran (ref_commit be)"
    by (simp_all add: turn_post_def)
  with tp turn_post_done_ok [OF tp d] turn_post_registered_done [OF tp r]
  show ?thesis by (simp add: run_inv_def)
qed

lemma get_commit_seed:
  assumes "run_inv be st" "get_commit be st r = Inr (c, st1)"
  shows "run_inv be (st1\<lparr>todo := todo st1 @ [c],
                        todo_d := AList.update (cid c) True (todo_d st1)\<rparr>)
       \<and> events st1 = events st"
proof -
  from assms(1) have c: "cache_ok be st" by (simp add: run_inv_def)
  from get_commit_ok [OF c assms(2)]
  have 1: "cache_ok be st1" "only_caches st st1" "ref_commit be r = Some c" by simp_all
  have "c \<in> ran (ref_commit be)" using 1(3) by (auto simp: ran_def)
  moreover have "cache_ok be (st1\<lparr>todo := todo st1 @ [c],
                        todo_d := AList.update (cid c) True (todo_d st1)\<rparr>)"
    using 1(1) by (simp add: cache_ok_def)
  ultimately show ?thesis
    using assms(1) 1(2)
    by (simp add: run_inv_def only_caches_def done_ok_def registered_done_def)
qed

lemma run_progress_step:
  assumes "run_progress be st0 s" "todo s \<noteq> []" "process_todo be opts s = Inr s1"
  shows "run_progress be st0 s1 \<and> turn_post be s s1"
proof -
  from assms(1) have inv: "run_inv be s" by (simp add: run_progress_def)
  from process_todo_run_inv [OF inv assms(2,3)]
  have inv1: "run_inv be s1" and tp: "turn_post be s s1" by simp_all
  from assms(1) obtain evs new where e: "events s = events st0 @ evs" "All_done \<notin> set evs"
    and d: "done_l s = done_l st0 @ new"
    unfolding run_progress_def by blast
  from tp obtain evs1 where e1: "events s1 = events s @ evs1" "All_done \<notin> set evs1"
    unfolding turn_post_def by blast
  from tp have "done_l s1 = done_l s \<or> done_l s1 = done_l s @ [cid (hd (todo s))]"
    unfolding turn_post_def by blast
  with d have "\<exists>new. done_l s1 = done_l st0 @ new" by auto
  moreover have "events s1 = events st0 @ (evs @ evs1) \<and> All_done \<notin> set (evs @ evs1)"
    using e e1 by simp
  then have "\<exists>evs. events s1 = events st0 @ evs \<and> All_done \<notin> set evs" by blast
  ultimately show ?thesis
    using inv1 tp by (simp add: run_progress_def)
qed

lemma find_dependencies_total:
  assumes fin: "finite (ran (ref_commit be))" and inv: "run_inv be st"
  shows "\<exists>r. find_dependencies be opts st dependent_rev recurse_arg = Some r
           \<and> (\<forall>st'. r = Inr st' \<longrightarrow>
                 run_inv be st' \<and> todo st' = []
                 \<and> (\<exists>new. done_l st' = done_l st @ new)
                 \<and> (\<exists>evs. events st' = events st @ evs @ [All_done] \<and> All_done \<notin> set evs))"
proof (cases "get_commit be st dependent_rev")
  case (Inl e)
  then show ?thesis by (simp add: find_dependencies_def abort_def)
next
  case (Inr cs)
  obtain c st1 where cs: "cs = (c, st1)" by (cases cs)
  define st2 where "st2 = st1\<lparr>todo := todo st1 @ [c],
                                todo_d := AList.update (cid c) True (todo_d st1)\<rparr>"
  from get_commit_seed [OF inv Inr [unfolded cs]]
  have inv2: "run_inv be st2" and ev: "events st1 = events st" by (simp_all add: st2_def)
  from get_commit_ok [OF _ Inr [unfolded cs]] inv
  have "only_caches st st1" by (simp add: run_inv_def)
  then have dn: "done_l st2 = done_l st" "events st2 = events st"
    by (simp_all add: st2_def only_caches_def)
  have J2: "run_progress be st2 st2" using inv2 by (simp add: run_progress_def)
  have sub: "\<And>s. run_progress be st2 s \<Longrightarrow> set (todo s) \<subseteq> ran (ref_commit be)"
    by (simp add: run_progress_def run_inv_def)
  have step2: "\<And>s s1. run_progress be st2 s \<Longrightarrow> todo s \<noteq> []
                 \<Longrightarrow> process_todo be opts s = Inr s1
                 \<Longrightarrow> run_progress be st2 s1 \<and> turn_post be s s1"
    by (rule run_progress_step)
  from todo_loop_terminates [of be "run_progress be st2" opts st2, OF fin step2 sub J2]
  obtain r0 where r0: "todo_loop be opts st2 = Some r0" by blast
  have fd: "find_dependencies be opts st dependent_rev recurse_arg
            = (case r0 of Inl e \<Rightarrow> Some (Inl e)
               | Inr st3 \<Rightarrow> Some (Inr (notify_listeners All_done st3)))"
    using Inr r0 by (simp add: find_dependencies_def cs st2_def)
  show ?thesis
  proof (cases r0)
    case (Inl e)
    with fd show ?thesis by simp
  next
    case (Inr st3)
    have step: "\<And>s s1. run_progress be st2 s \<Longrightarrow> todo s \<noteq> []
                 \<Longrightarrow> process_todo be opts s = Inr s1 \<Longrightarrow> run_progress be st2 s1"
      using run_progress_step by blast
    from todo_loop_invariant [of "run_progress be st2" be opts st2 st3, OF step r0 [unfolded Inr] J2]
    have J3: "run_progress be st2 st3" and t3: "todo st3 = []" by simp_all
    from J3 obtain evs new where inv3: "run_inv be st3"
      and e3: "events st3 = events st @ evs" "All_done \<notin> set evs"
      and d3: "done_l st3 = done_l st @ new"
      unfolding run_progress_def dn by blast
    have "run_inv be (notify_listeners All_done st3)"
      using inv3
      by (simp add: run_inv_def cache_ok_def done_ok_def registered_done_def notify_fields)
    moreover have "\<exists>evs. events (notify_listeners All_done st3) = events st @ evs @ [All_done]
                     \<and> All_done \<notin> set evs"
      using e3 by (simp add: notify_fields)
    ultimately show ?thesis
      using fd Inr t3 d3 by (simp add: notify_fields)
  qed
qed

lemma ex_backend_ran: "ran (ref_commit ex_backend) = {commit_a, commit_b, commit_c}"
proof -
  have "ran (map_of [(''a'', commit_a), (''b'', commit_b), (''c'', commit_c)])
        = snd ` set [(''a'', commit_a), (''b'', commit_b), (''c'', commit_c)]"
    by (rule ran_distinct) simp
  then show ?thesis by (simp add: ex_backend_def)
qed

lemma ex_queue_inv:
  "set cs \<subseteq> {commit_a, commit_b, commit_c} \<Longrightarrow> run_inv ex_backend (ex_queue cs)"
  by (simp add: run_inv_def cache_ok_def done_ok_def registered_done_def ex_queue_def init_def
      ex_backend_ran)

theorem root_commit_no_edges_witness:
  "todo (ex_queue [commit_a]) = commit_a # [] \<and> parents commit_a = []
   \<and> has_key (todo_d (ex_queue [commit_a])) (cid commit_a)
   \<and> \<not> has_key (done_d (ex_queue [commit_a])) (cid commit_a)
   \<and> registered_done (ex_queue [commit_a])
   \<and> map_sum id events (process_todo ex_backend ex_options (ex_queue [commit_a]))
       = Inr [New_commit commit_a, Dependent_done commit_a []]"
proof -
  have h: "todo (ex_queue [commit_a]) = commit_a # []" "parents commit_a = []"
    "has_key (todo_d (ex_queue [commit_a])) (cid commit_a)"
    "\<not> has_key (done_d (ex_queue [commit_a])) (cid commit_a)"
    "registered_done (ex_queue [commit_a])"
    by (simp_all add: ex_queue_def init_def commit_a_def has_key_def registered_done_def)
  have e: "events (ex_queue [commit_a]) = []" by (simp add: ex_queue_def init_def)
  from root_commit_no_edges [OF h, where be = ex_backend and opts = ex_options]
  obtain st' where "process_todo ex_backend ex_options (ex_queue [commit_a]) = Inr st'"
    "events st' = events (ex_queue [commit_a]) @ [New_commit commit_a, Dependent_done commit_a []]"
    by blast
  with h e show ?thesis by simp
qed

lemma find_dependencies_invariant:
  assumes ok: "run_step_ok be opts I" and I: "I st" and c: "cache_ok be st"
    and t: "set (todo st) \<subseteq> ran (ref_commit be)"
    and run: "find_dependencies be opts st dependent_rev recurse_arg = Some (Inr st')"
  shows "I st'"
proof -
  from run obtain seed st1 where g: "get_commit be st dependent_rev = Inr (seed, st1)"
    by (cases "get_commit be st dependent_rev") (auto simp: find_dependencies_def abort_def)
  define st2 where "st2 = st1\<lparr>todo := todo st1 @ [seed],
                                todo_d := AList.update (cid seed) True (todo_d st1)\<rparr>"
  from run g obtain st3 where l: "todo_loop be opts st2 = Some (Inr st3)"
    and st': "st' = notify_listeners All_done st3"
    by (auto simp: find_dependencies_def st2_def split: option.splits sum.splits)
  from get_commit_ok [OF c g]
  have 1: "cache_ok be st1" "only_caches st st1" "ref_commit be dependent_rev = Some seed"
    by simp_all
  from ok have go: "graph_only I" by (simp add: run_step_ok_def)
  have d2: "dependencies st2 = dependencies st" using 1(2) by (simp add: st2_def only_caches_def)
  let ?J = "\<lambda>s. I s \<and> cache_ok be s \<and> set (todo s) \<subseteq> ran (ref_commit be)"
  have "I st2" using go I d2 unfolding graph_only_def by blast
  moreover have "cache_ok be st2" using 1(1) by (simp add: cache_ok_def st2_def)
  moreover have "set (todo st2) \<subseteq> ran (ref_commit be)"
    using t 1(2,3) by (auto simp: st2_def only_caches_def ran_def)
  ultimately have J2: "?J st2" by simp
  have step: "\<And>s s1. ?J s \<Longrightarrow> todo s \<noteq> [] \<Longrightarrow> process_todo be opts s = Inr s1 \<Longrightarrow> ?J s1"
  proof -
    fix s s1 assume a: "?J s" "todo s \<noteq> []" "process_todo be opts s = Inr s1"
    from process_todo_invariant [OF ok _ _ _ a(2,3)] a(1)
    show "?J s1" by (simp add: turn_post_def)
  qed
  from todo_loop_invariant [of ?J be opts st2 st3, OF step l J2] have "I st3" by simp
  with go st' show ?thesis unfolding graph_only_def
    by (simp add: notify_fields)
qed

lemma list_all_update:
  "list_all P al \<Longrightarrow> P (k, v) \<Longrightarrow> list_all P (AList.update k v al)"
  by (induction al) auto

lemma list_all_map_of:
  "list_all P al \<Longrightarrow> map_of al k = Some v \<Longrightarrow> P (k, v)"
  by (auto simp: list_all_iff dest: map_of_SomeD)

lemma update_new_key:
  "\<not> has_key al k \<Longrightarrow> AList.update k v al = al @ [(k, v)]"
  by (induction al) (auto simp: has_key_def split: if_splits)

lemma distinct_update_keys:
  "distinct (map fst al) \<Longrightarrow> distinct (map fst (AList.update k v al))"
  by (simp add: distinct_update)

lemma graph_only_no_duplicate_evidence: "graph_only no_duplicate_evidence"
  by (simp add: graph_only_def no_duplicate_evidence_def)

lemma register_ok_no_duplicate_evidence: "register_ok no_duplicate_evidence dependent"
  unfolding register_ok_def no_duplicate_evidence_def
  using register_new_dependent_effect
  by (auto simp: list_all_update edge_map_ok_def)

lemma process_new_dependency_no_dup:
  assumes "\<not> seen_commit st (KCommit dep)" "no_duplicate_evidence st"
    and "process_new_dependency opts st dependent dsha dep ysha p n = Inr st'"
  shows "no_duplicate_evidence st'"
proof -
  from process_new_dependency_effect [OF assms(1,3)] obtain em where
    em: "map_of (dependencies st) dsha = Some em"
    and deps: "dependencies st' = AList.update dsha (AList.update ysha [] em) (dependencies st)"
    by auto
  from list_all_map_of [OF assms(2) [unfolded no_duplicate_evidence_def] em]
  have "edge_map_ok em" by simp
  then have "edge_map_ok (AList.update ysha [] em)"
    unfolding edge_map_ok_def by (rule list_all_update) (simp add: sources_ok_def)
  with assms(2) show ?thesis
    unfolding no_duplicate_evidence_def deps by (intro list_all_update) simp_all
qed

lemma record_dependency_source_no_dup:
  assumes "no_duplicate_evidence st"
    and "record_dependency_source st dependent dsha dep ysha p n line = Inr st'"
  shows "no_duplicate_evidence st'"
proof -
  from record_dependency_source_effect [OF assms(2)] obtain em srcs where
    em: "map_of (dependencies st) dsha = Some em" and srcs: "map_of em ysha = Some srcs"
    and deps: "dependencies st' = AList.update dsha
                   (AList.update ysha
                      (AList.update p
                         (AList.update n line (case map_of srcs p of Some ls \<Rightarrow> ls | None \<Rightarrow> []))
                         srcs) em)
                   (dependencies st)"
    by auto
  from list_all_map_of [OF assms(1) [unfolded no_duplicate_evidence_def] em]
  have e: "edge_map_ok em" by simp
  from list_all_map_of [OF e [unfolded edge_map_ok_def] srcs]
  have s: "sources_ok srcs" by simp
  have "distinct (map fst (case map_of srcs p of Some ls \<Rightarrow> ls | None \<Rightarrow> []))"
  proof (cases "map_of srcs p")
    case None
    then show ?thesis by simp
  next
    case (Some ls)
    from list_all_map_of [OF s [unfolded sources_ok_def] Some] Some show ?thesis by simp
  qed
  then have "distinct (map fst (AList.update n line
               (case map_of srcs p of Some ls \<Rightarrow> ls | None \<Rightarrow> [])))"
    by (rule distinct_update_keys)
  with s have "sources_ok (AList.update p
                 (AList.update n line (case map_of srcs p of Some ls \<Rightarrow> ls | None \<Rightarrow> [])) srcs)"
    unfolding sources_ok_def by (intro list_all_update) simp_all
  with e have "edge_map_ok (AList.update ysha (AList.update p
                 (AList.update n line (case map_of srcs p of Some ls \<Rightarrow> ls | None \<Rightarrow> [])) srcs) em)"
    unfolding edge_map_ok_def by (intro list_all_update) simp_all
  with assms(1) show ?thesis
    unfolding no_duplicate_evidence_def deps by (intro list_all_update) simp_all
qed

lemma hunk_step_ok_no_duplicate_evidence:
  "hunk_step_ok be opts no_duplicate_evidence dependent parent"
  unfolding hunk_step_ok_def
proof (intro allI impI)
  fix st p h bh ltc st' ltc'
  assume I: "no_duplicate_evidence st" and c: "cache_ok be st"
    and run: "process_blame_hunk be opts st dependent (cid dependent) parent p bh ltc
              = Inr (st', ltc')"
  from run show "no_duplicate_evidence st'"
  proof (cases rule: process_blame_hunk_cases)
    case (excluded dep st1)
    from get_commit_ok [OF c excluded(1)] have 1: "cache_ok be st1" "only_caches st st1"
      by simp_all
    from is_excluded_ok [OF 1(1) excluded(2)] have "only_caches st1 st'" by simp
    with 1(2) I show ?thesis by (simp add: only_caches_def no_duplicate_evidence_def)
  next
    case (recorded dep st1 st2 st3 em)
    from get_commit_ok [OF c recorded(1)] have 1: "cache_ok be st1" "only_caches st st1"
      by simp_all
    from is_excluded_ok [OF 1(1) recorded(2)] have 2: "cache_ok be st2" "only_caches st1 st2"
      by simp_all
    from 1(2) 2(2) I have I2: "no_duplicate_evidence st2"
      by (simp add: only_caches_def no_duplicate_evidence_def)
    from recorded(4) have "no_duplicate_evidence st3"
      using process_new_dependency_no_dup [OF seen_commit_object [OF 2(1)] I2] I2 by auto
    then show ?thesis using recorded(5) by (rule record_dependency_source_no_dup)
  qed
qed

lemma run_step_ok_no_duplicate_evidence: "run_step_ok be opts no_duplicate_evidence"
  by (simp add: run_step_ok_def graph_only_no_duplicate_evidence
      register_ok_no_duplicate_evidence hunk_step_ok_no_duplicate_evidence)

lemma no_duplicate_evidence_distinct:
  assumes "no_duplicate_evidence st"
  shows "distinct (map fst (evidence st d y p))"
proof (cases "map_of (dependencies st) d")
  case None
  then show ?thesis by (simp add: evidence_def edges_of_def)
next
  case (Some em)
  from list_all_map_of [OF assms [unfolded no_duplicate_evidence_def] Some]
  have e: "edge_map_ok em" by simp
  show ?thesis
  proof (cases "map_of em y")
    case None
    with Some show ?thesis by (simp add: evidence_def edges_of_def)
  next
    case em: (Some srcs)
    from list_all_map_of [OF e [unfolded edge_map_ok_def] em]
    have s: "sources_ok srcs" by simp
    show ?thesis
    proof (cases "map_of srcs p")
      case None
      with Some em show ?thesis by (simp add: evidence_def edges_of_def)
    next
      case ls: (Some ls)
      from list_all_map_of [OF s [unfolded sources_ok_def] ls]
      show ?thesis using Some em ls by (simp add: evidence_def edges_of_def)
    qed
  qed
qed

lemma evidence_lookup:
  assumes "map_of (dependencies st) d = Some em" "map_of em y = Some srcs"
  shows "evidence st d y p = (case map_of srcs p of Some ls \<Rightarrow> ls | None \<Rightarrow> [])"
  using assms by (simp add: evidence_def edges_of_def split: option.splits)

lemma record_dependency_source_abort:
  assumes "has_key (evidence st dsha ysha p) n"
  shows "record_dependency_source st dependent dsha dependency ysha p n line = abort"
proof -
  from assms obtain em where em: "map_of (dependencies st) dsha = Some em"
    by (cases "map_of (dependencies st) dsha") (auto simp: evidence_def edges_of_def has_key_def)
  with assms obtain srcs where srcs: "map_of em ysha = Some srcs"
    by (cases "map_of em ysha") (auto simp: evidence_def edges_of_def has_key_def)
  with assms em obtain ls where ls: "map_of srcs p = Some ls"
    by (cases "map_of srcs p") (auto simp: evidence_def edges_of_def has_key_def)
  from assms em srcs ls have "has_key ls n" by (simp add: evidence_def edges_of_def)
  with em srcs ls show ?thesis
    by (simp add: record_dependency_source_def Let_def has_key_def)
qed

lemma record_dependency_source_stores:
  assumes "has_key (edges_of st dsha) ysha" "\<not> has_key (evidence st dsha ysha p) n"
  shows "\<exists>st'. record_dependency_source st dependent dsha dependency ysha p n line = Inr st'
           \<and> evidence st' dsha ysha p = evidence st dsha ysha p @ [(n, line)]"
proof -
  from assms(1) obtain em where em: "map_of (dependencies st) dsha = Some em"
    by (cases "map_of (dependencies st) dsha") (auto simp: edges_of_def has_key_def)
  with assms(1) obtain srcs where srcs: "map_of em ysha = Some srcs"
    by (cases "map_of em ysha") (auto simp: edges_of_def has_key_def)
  define found where "found = (case map_of srcs p of Some ls \<Rightarrow> ls | None \<Rightarrow> [])"
  have ev: "evidence st dsha ysha p = found"
    using evidence_lookup [OF em srcs] by (simp add: found_def)
  with assms(2) have nf: "\<not> has_key found n" by simp
  define st1 where "st1 = (if \<not> has_key srcs p
                           then notify_listeners (New_path dependent dependency p n) st else st)"
  define srcs1 where "srcs1 = (if \<not> has_key srcs p then AList.update p [] srcs else srcs)"
  have f1: "(case map_of srcs1 p of Some ls \<Rightarrow> ls | None \<Rightarrow> []) = found"
    by (auto simp: srcs1_def found_def has_key_def update_conv' split: option.splits)
  have d1: "map_of (dependencies st1) dsha = Some em" using em by (simp add: st1_def notify_fields)
  define st' where "st' = notify_listeners (New_line dependent dependency p n)
     (st1\<lparr>dependencies := AList.update dsha
        (AList.update ysha (AList.update p (AList.update n line found) srcs1) em)
        (dependencies st1)\<rparr>)"
  have r: "record_dependency_source st dependent dsha dependency ysha p n line = Inr st'"
    using em srcs nf f1 d1
    by (simp add: record_dependency_source_def Let_def set_edge_def st'_def
        st1_def [symmetric] srcs1_def [symmetric])
  have "evidence st' dsha ysha p = AList.update n line found"
    by (simp add: evidence_def edges_of_def st'_def notify_fields update_conv')
  also have "\<dots> = found @ [(n, line)]" using nf by (rule update_new_key)
  finally show ?thesis using r ev by simp
qed

subsection \<open>Evidence is recorded once\<close>

text \<open>
  C2. \<open>record_dependency_source\<close> records a line number of a (dependent, dependency,
  path) triple at most once. If the line number is already a key of the evidence of the
  triple, the call is a fatal abort. Otherwise, for a registered edge, it returns
  normally and the evidence of the triple is the one before followed by the new line
  number with its line representation. It keeps the invariant that no evidence list
  holds a line number twice, and so does a whole run of \<open>find_dependencies\<close>: after it,
  for every triple, the line numbers of the evidence are distinct.
\<close>

theorem record_dependency_source_once:
  "(has_key (evidence st dsha ysha p) n
      \<longrightarrow> record_dependency_source st dependent dsha dependency ysha p n line = abort)
   \<and> (has_key (edges_of st dsha) ysha \<and> \<not> has_key (evidence st dsha ysha p) n
      \<longrightarrow> (\<exists>st'. record_dependency_source st dependent dsha dependency ysha p n line = Inr st'
                \<and> evidence st' dsha ysha p = evidence st dsha ysha p @ [(n, line)]
                \<and> (no_duplicate_evidence st \<longrightarrow> no_duplicate_evidence st')))
   \<and> (run_inv be st \<and> no_duplicate_evidence st
       \<and> find_dependencies be opts st dependent_rev recurse_arg = Some (Inr st_end)
      \<longrightarrow> no_duplicate_evidence st_end \<and> distinct (map fst (evidence st_end d y q)))"
proof -
  have A: "has_key (evidence st dsha ysha p) n
      \<longrightarrow> record_dependency_source st dependent dsha dependency ysha p n line = abort"
    by (simp add: record_dependency_source_abort)
  have B: "has_key (edges_of st dsha) ysha \<and> \<not> has_key (evidence st dsha ysha p) n
      \<longrightarrow> (\<exists>st'. record_dependency_source st dependent dsha dependency ysha p n line = Inr st'
                \<and> evidence st' dsha ysha p = evidence st dsha ysha p @ [(n, line)]
                \<and> (no_duplicate_evidence st \<longrightarrow> no_duplicate_evidence st'))"
  proof
    assume h: "has_key (edges_of st dsha) ysha \<and> \<not> has_key (evidence st dsha ysha p) n"
    then obtain st' where
      r: "record_dependency_source st dependent dsha dependency ysha p n line = Inr st'"
      and e: "evidence st' dsha ysha p = evidence st dsha ysha p @ [(n, line)]"
      using record_dependency_source_stores [of st dsha ysha p n dependent dependency line]
      by blast
    have "no_duplicate_evidence st \<longrightarrow> no_duplicate_evidence st'"
      using record_dependency_source_no_dup [OF _ r] by blast
    with r e show "\<exists>st'. record_dependency_source st dependent dsha dependency ysha p n line
                      = Inr st'
                \<and> evidence st' dsha ysha p = evidence st dsha ysha p @ [(n, line)]
                \<and> (no_duplicate_evidence st \<longrightarrow> no_duplicate_evidence st')"
      by blast
  qed
  have C: "run_inv be st \<and> no_duplicate_evidence st
       \<and> find_dependencies be opts st dependent_rev recurse_arg = Some (Inr st_end)
      \<longrightarrow> no_duplicate_evidence st_end \<and> distinct (map fst (evidence st_end d y q))"
  proof
    assume h: "run_inv be st \<and> no_duplicate_evidence st
       \<and> find_dependencies be opts st dependent_rev recurse_arg = Some (Inr st_end)"
    then have "cache_ok be st" "set (todo st) \<subseteq> ran (ref_commit be)"
      by (simp_all add: run_inv_def)
    from find_dependencies_invariant [OF run_step_ok_no_duplicate_evidence _ this] h
    have "no_duplicate_evidence st_end" by blast
    then show "no_duplicate_evidence st_end \<and> distinct (map fst (evidence st_end d y q))"
      by (simp add: no_duplicate_evidence_distinct)
  qed
  show ?thesis by (rule conjI [OF A conjI [OF B C]])
qed

theorem record_dependency_source_once_witness:
  "has_key (evidence ex_recorded ''c'' ''b'' ''f'') 2
   \<and> record_dependency_source ex_recorded commit_c ''c'' commit_b ''b'' ''f'' 2 ''b 2 2''
       = Inl Abort
   \<and> has_key (edges_of ex_recorded ''c'') ''b''
   \<and> \<not> has_key (evidence ex_recorded ''c'' ''b'' ''f'') 3
   \<and> map_sum id (\<lambda>s. evidence s ''c'' ''b'' ''f'')
        (record_dependency_source ex_recorded commit_c ''c'' commit_b ''b'' ''f'' 3 ''b 3 3'')
       = Inr [(2, ''b 2 2''), (3, ''b 3 3'')]
   \<and> run_inv ex_backend init \<and> no_duplicate_evidence init
   \<and> map_option (map_sum id no_duplicate_evidence)
        (find_dependencies ex_backend ex_options init ''c'' None) = Some (Inr True)"
proof -
  have h: "has_key (evidence ex_recorded ''c'' ''b'' ''f'') 2"
    "has_key (edges_of ex_recorded ''c'') ''b''"
    "\<not> has_key (evidence ex_recorded ''c'' ''b'' ''f'') 3"
    "evidence ex_recorded ''c'' ''b'' ''f'' = [(2, ''b 2 2'')]"
    by (simp_all add: evidence_def edges_of_def ex_recorded_def init_def has_key_def)
  have i: "run_inv ex_backend init" "no_duplicate_evidence init"
    by (rule run_inv_init) (simp add: no_duplicate_evidence_def init_def)
  have t: "\<not> Option.is_none (find_dependencies ex_backend ex_options init ''c'' None)"
    "\<not> isl (the (find_dependencies ex_backend ex_options init ''c'' None))"
    by code_simp+
  then obtain st_end where
    e: "find_dependencies ex_backend ex_options init ''c'' None = Some (Inr st_end)"
    by (cases "find_dependencies ex_backend ex_options init ''c'' None";
        cases "the (find_dependencies ex_backend ex_options init ''c'' None)")
       (auto simp: Option.is_none_def)
  note w1 = record_dependency_source_once [where st = ex_recorded and dsha = "''c''"
      and ysha = "''b''" and p = "''f''" and n = 2 and dependent = commit_c
      and dependency = commit_b and line = "''b 2 2''"]
  note w2 = record_dependency_source_once [where st = ex_recorded and dsha = "''c''"
      and ysha = "''b''" and p = "''f''" and n = 3 and dependent = commit_c
      and dependency = commit_b and line = "''b 3 3''"]
  note w3 = record_dependency_source_once [where st = init and be = ex_backend
      and opts = ex_options and dependent_rev = "''c''" and recurse_arg = None
      and st_end = st_end]
  from w1 [THEN conjunct1] h(1) have a: "record_dependency_source ex_recorded commit_c ''c'' commit_b ''b'' ''f'' 2
                          ''b 2 2'' = Inl Abort"
    by (simp add: abort_def)
  from w2 [THEN conjunct2, THEN conjunct1] h(2,3) obtain st' where
    "record_dependency_source ex_recorded commit_c ''c'' commit_b ''b'' ''f'' 3 ''b 3 3'' = Inr st'"
    "evidence st' ''c'' ''b'' ''f'' = evidence ex_recorded ''c'' ''b'' ''f'' @ [(3, ''b 3 3'')]"
    by blast
  then have b: "map_sum id (\<lambda>s. evidence s ''c'' ''b'' ''f'')
        (record_dependency_source ex_recorded commit_c ''c'' commit_b ''b'' ''f'' 3 ''b 3 3'')
       = Inr [(2, ''b 2 2''), (3, ''b 3 3'')]"
    by (simp add: h(4))
  from w3 [THEN conjunct2, THEN conjunct2] i e have c: "no_duplicate_evidence st_end" by blast
  from h i a b c e show ?thesis by simp
qed

lemma map_of_distinct_entry:
  "distinct (map fst al) \<Longrightarrow> (k, v) \<in> set al \<Longrightarrow> map_of al k = Some v"
  by simp

lemma edges_rows:
  assumes "distinct (map fst (dependencies st))"
  shows "edges st = map (\<lambda>(dependent, em). map (\<lambda>(dependency, srcs). (dependent, dependency)) em)
                      (dependencies st)"
proof -
  have "\<And>d em. (d, em) \<in> set (dependencies st)
          \<Longrightarrow> (case map_of (dependencies st) d of Some em \<Rightarrow> em | None \<Rightarrow> []) = em"
    using assms by simp
  then show ?thesis
    by (auto simp: edges_def split_def intro!: map_cong)
qed

lemma concat_edges:
  "distinct (map fst (dependencies st)) \<Longrightarrow> concat (edges st) = edges_flattened st"
  by (simp add: edges_rows edges_flattened_def)

lemma distinct_edges_flattened_aux:
  "distinct (map fst al) \<Longrightarrow> list_all (\<lambda>(d, em). distinct (map fst em)) al
   \<Longrightarrow> distinct (concat (map (\<lambda>(d, em). map (\<lambda>(y, srcs). (d, y)) em) al))"
proof (induction al)
  case Nil
  then show ?case by simp
next
  case (Cons a al)
  obtain d em where a: "a = (d, em)" by (cases a)
  have 1: "distinct (map (\<lambda>(y, srcs). (d, y)) em)"
    using Cons.prems(2) by (simp add: a distinct_map inj_on_def split_def)
  have 2: "set (map (\<lambda>(y, srcs). (d, y)) em)
           \<inter> set (concat (map (\<lambda>(d, em). map (\<lambda>(y, srcs). (d, y)) em) al)) = {}"
    using Cons.prems(1) by (force simp: a)
  from Cons 1 2 show ?case by (simp add: a)
qed

lemma edges_flattened_set:
  assumes "distinct (map fst (dependencies st))"
  shows "((d, y) \<in> set (edges_flattened st)) = has_key (edges_of st d) y"
proof
  assume "(d, y) \<in> set (edges_flattened st)"
  then obtain em srcs where "(d, em) \<in> set (dependencies st)" "(y, srcs) \<in> set em"
    by (auto simp: edges_flattened_def)
  with assms have "map_of (dependencies st) d = Some em" "y \<in> fst ` set em"
    by (auto simp: rev_image_eqI)
  then show "has_key (edges_of st d) y" by (simp add: edges_of_def has_key_iff)
next
  assume "has_key (edges_of st d) y"
  then obtain em where "map_of (dependencies st) d = Some em" "y \<in> fst ` set em"
    by (cases "map_of (dependencies st) d") (auto simp: edges_of_def has_key_iff)
  then have "(d, em) \<in> set (dependencies st)" "\<exists>srcs. (y, srcs) \<in> set em"
    by (auto dest: map_of_SomeD)
  then show "(d, y) \<in> set (edges_flattened st)"
    by (auto simp: edges_flattened_def intro!: bexI [of _ "(d, em)"])
qed

lemma graph_keys_ok_update:
  assumes "graph_keys_ok st" "map_of (dependencies st) d = Some em"
    and "dependencies st' = AList.update d (AList.update y v em) (dependencies st)"
  shows "graph_keys_ok st'"
proof -
  from list_all_map_of [OF _ assms(2), of "\<lambda>(d, em). distinct (map fst em)"] assms(1)
  have "distinct (map fst em)" by (simp add: graph_keys_ok_def)
  then have "distinct (map fst (AList.update y v em))" by (rule distinct_update_keys)
  with assms(1) show ?thesis
    unfolding graph_keys_ok_def assms(3)
    by (simp add: distinct_update list_all_update)
qed

lemma graph_only_graph_keys_ok: "graph_only graph_keys_ok"
  by (simp add: graph_only_def graph_keys_ok_def)

lemma register_ok_graph_keys_ok: "register_ok graph_keys_ok dependent"
  unfolding register_ok_def graph_keys_ok_def
  using register_new_dependent_effect
  by (auto simp: list_all_update distinct_update)

lemma hunk_step_ok_graph_keys_ok: "hunk_step_ok be opts graph_keys_ok dependent parent"
  unfolding hunk_step_ok_def
proof (intro allI impI)
  fix st p h bh ltc st' ltc'
  assume I: "graph_keys_ok st" and c: "cache_ok be st"
    and run: "process_blame_hunk be opts st dependent (cid dependent) parent p bh ltc
              = Inr (st', ltc')"
  from run show "graph_keys_ok st'"
  proof (cases rule: process_blame_hunk_cases)
    case (excluded dep st1)
    from get_commit_ok [OF c excluded(1)] have 1: "cache_ok be st1" "only_caches st st1"
      by simp_all
    from is_excluded_ok [OF 1(1) excluded(2)] have "only_caches st1 st'" by simp
    with 1(2) I show ?thesis by (simp add: only_caches_def graph_keys_ok_def)
  next
    case (recorded dep st1 st2 st3 em)
    from get_commit_ok [OF c recorded(1)] have 1: "cache_ok be st1" "only_caches st st1"
      by simp_all
    from is_excluded_ok [OF 1(1) recorded(2)] have 2: "cache_ok be st2" "only_caches st1 st2"
      by simp_all
    from 1(2) 2(2) I have I2: "graph_keys_ok st2"
      by (simp add: only_caches_def graph_keys_ok_def)
    have I3: "graph_keys_ok st3"
    proof (cases "has_key em (orig_commit_id bh)")
      case True
      with recorded(4) I2 show ?thesis by simp
    next
      case False
      with recorded(4) have "process_new_dependency opts st2 dependent (cid dependent) dep
          (orig_commit_id bh) p (final_start_line_number bh) = Inr st3" by simp
      from process_new_dependency_effect [OF seen_commit_object [OF 2(1)] this]
      obtain em' where "map_of (dependencies st2) (cid dependent) = Some em'"
        "dependencies st3 = AList.update (cid dependent)
           (AList.update (orig_commit_id bh) [] em') (dependencies st2)"
        by auto
      with I2 show ?thesis by (rule graph_keys_ok_update)
    qed
    from record_dependency_source_effect [OF recorded(5)]
    obtain em' v where "map_of (dependencies st3) (cid dependent) = Some em'"
      "dependencies st' = AList.update (cid dependent)
         (AList.update (orig_commit_id bh) v em') (dependencies st3)"
      by blast
    with I3 show ?thesis by (rule graph_keys_ok_update)
  qed
qed

lemma run_step_ok_graph_keys_ok: "run_step_ok be opts graph_keys_ok"
  by (simp add: run_step_ok_def graph_only_graph_keys_ok
      register_ok_graph_keys_ok hunk_step_ok_graph_keys_ok)

lemma ex_run_returns:
  "\<exists>st_end. find_dependencies ex_backend ex_options init ''c'' None = Some (Inr st_end)"
proof -
  have "\<not> Option.is_none (find_dependencies ex_backend ex_options init ''c'' None)"
    "\<not> isl (the (find_dependencies ex_backend ex_options init ''c'' None))"
    by code_simp+
  then show ?thesis
    by (cases "find_dependencies ex_backend ex_options init ''c'' None";
        cases "the (find_dependencies ex_backend ex_options init ''c'' None)")
       (auto simp: Option.is_none_def)
qed

subsection \<open>The edges of the graph\<close>

text \<open>
  What \<open>edges\<close> computes, for every state: one list for each dependent of the graph, in
  the order of the dependents, holding the pairs (dependent, dependency) of its
  dependency keys in their order. Concatenated, these lists are the flat sequence with
  exactly one pair for each recorded dependency key, whatever paths and lines are
  recorded under the key: the pairs are distinct and a pair is in it exactly when the
  dependency is a key of the dependent's edge map. The keys of the dictionaries are
  distinct (\<open>graph_keys_ok\<close>) initially and after every run.
\<close>

lemma edges_per_dependent:
  "length (edges st) = length (dependencies st)
   \<and> (\<forall>i < length (dependencies st).
         edges st ! i = map (\<lambda>dependency. (fst (dependencies st ! i), dependency))
                          (map fst (edges_of st (fst (dependencies st ! i)))))
   \<and> (graph_keys_ok st
        \<longrightarrow> concat (edges st) = edges_flattened st \<and> distinct (concat (edges st))
            \<and> (\<forall>d y. ((d, y) \<in> set (concat (edges st))) = has_key (edges_of st d) y))
   \<and> (graph_keys_ok st \<and> run_inv be st
       \<and> find_dependencies be opts st dependent_rev recurse_arg = Some (Inr st_end)
        \<longrightarrow> graph_keys_ok st_end)"
proof -
  have A: "length (edges st) = length (dependencies st)" by (simp add: edges_def)
  have B: "\<forall>i < length (dependencies st).
         edges st ! i = map (\<lambda>dependency. (fst (dependencies st ! i), dependency))
                          (map fst (edges_of st (fst (dependencies st ! i))))"
    by (simp add: edges_def edges_of_def)
  have C: "graph_keys_ok st
        \<longrightarrow> concat (edges st) = edges_flattened st \<and> distinct (concat (edges st))
            \<and> (\<forall>d y. ((d, y) \<in> set (concat (edges st))) = has_key (edges_of st d) y)"
  proof
    assume g: "graph_keys_ok st"
    then have d: "distinct (map fst (dependencies st))" by (simp add: graph_keys_ok_def)
    have "distinct (edges_flattened st)"
      using g unfolding graph_keys_ok_def edges_flattened_def
      by (intro distinct_edges_flattened_aux) simp_all
    then show "concat (edges st) = edges_flattened st \<and> distinct (concat (edges st))
            \<and> (\<forall>d y. ((d, y) \<in> set (concat (edges st))) = has_key (edges_of st d) y)"
      using concat_edges [OF d] edges_flattened_set [OF d] by simp
  qed
  have D: "graph_keys_ok st \<and> run_inv be st
       \<and> find_dependencies be opts st dependent_rev recurse_arg = Some (Inr st_end)
        \<longrightarrow> graph_keys_ok st_end"
  proof
    assume h: "graph_keys_ok st \<and> run_inv be st
       \<and> find_dependencies be opts st dependent_rev recurse_arg = Some (Inr st_end)"
    then have "cache_ok be st" "set (todo st) \<subseteq> ran (ref_commit be)"
      by (simp_all add: run_inv_def)
    from find_dependencies_invariant [OF run_step_ok_graph_keys_ok _ this] h
    show "graph_keys_ok st_end" by blast
  qed
  show ?thesis by (rule conjI [OF A conjI [OF B conjI [OF C D]]])
qed

lemma edges_per_dependent_example:
  "graph_keys_ok ex_two_edges
   \<and> concat (edges ex_two_edges) = [(''c'', ''a''), (''c'', ''b'')]
   \<and> distinct (concat (edges ex_two_edges))
   \<and> graph_keys_ok init \<and> run_inv ex_backend init
   \<and> map_option (map_sum id (\<lambda>s. (edges s, graph_keys_ok s)))
        (find_dependencies ex_backend ex_options init ''c'' None)
       = Some (Inr ([ [(''c'', ''b'')], [(''b'', ''a'')]], True))"
proof -
  have g: "graph_keys_ok ex_two_edges" "graph_keys_ok init"
    by (simp_all add: graph_keys_ok_def ex_two_edges_def init_def)
  have f: "edges_flattened ex_two_edges = [(''c'', ''a''), (''c'', ''b'')]"
    by (simp add: edges_flattened_def ex_two_edges_def init_def)
  have i: "run_inv ex_backend init" by (rule run_inv_init)
  have e: "map_option (map_sum id edges) (find_dependencies ex_backend ex_options init ''c'' None)
       = Some (Inr [ [(''c'', ''b'')], [(''b'', ''a'')]])"
    by code_simp
  from ex_run_returns obtain st_end where
    r: "find_dependencies ex_backend ex_options init ''c'' None = Some (Inr st_end)" ..
  note w = edges_per_dependent [where st = ex_two_edges]
  from w [THEN conjunct2, THEN conjunct2, THEN conjunct1] g(1)
  have c: "concat (edges ex_two_edges) = edges_flattened ex_two_edges"
    "distinct (concat (edges ex_two_edges))"
    by blast+
  note v = edges_per_dependent [where st = init and be = ex_backend
      and opts = ex_options and dependent_rev = "''c''" and recurse_arg = None
      and st_end = st_end]
  from v [THEN conjunct2, THEN conjunct2, THEN conjunct2] g(2) i r
  have "graph_keys_ok st_end" by blast
  with g f i e c r show ?thesis by simp
qed

text \<open>
  C1. The graph is documented as a list of edges, and every pair \<open>edges\<close> builds
  repeats its dependent, as an element of a flat list must. The list \<open>edges\<close> returns
  is not that flat sequence: the comprehension is nested, so the result has one element
  for each dependent and that element is a list of pairs. For the graph in which \<open>c\<close>
  depends on \<open>a\<close> and on \<open>b\<close> it returns a single element where the flat sequence
  has two pairs, and after the run from \<open>c\<close> over the history \<open>a \<leftarrow> b \<leftarrow> c\<close> it
  returns two one-element lists where the flat sequence is the two pairs themselves.
\<close>

theorem edges_not_flat:
  "edges ex_two_edges = [ [(''c'', ''a''), (''c'', ''b'')]]
   \<and> edges_flattened ex_two_edges = [(''c'', ''a''), (''c'', ''b'')]
   \<and> length (edges ex_two_edges) \<noteq> length (edges_flattened ex_two_edges)
   \<and> map_option (map_sum id (\<lambda>s. (edges s, edges_flattened s)))
        (find_dependencies ex_backend ex_options init ''c'' None)
       = Some (Inr ([ [(''c'', ''b'')], [(''b'', ''a'')]], [(''c'', ''b''), (''b'', ''a'')]))"
proof -
  have 1: "edges ex_two_edges = [ [(''c'', ''a''), (''c'', ''b'')]]
   \<and> edges_flattened ex_two_edges = [(''c'', ''a''), (''c'', ''b'')]
   \<and> length (edges ex_two_edges) \<noteq> length (edges_flattened ex_two_edges)"
    by (simp add: edges_def edges_flattened_def ex_two_edges_def init_def)
  have 2: "map_option (map_sum id (\<lambda>s. (edges s, edges_flattened s)))
        (find_dependencies ex_backend ex_options init ''c'' None)
       = Some (Inr ([ [(''c'', ''b'')], [(''b'', ''a'')]], [(''c'', ''b''), (''b'', ''a'')]))"
    by code_simp
  from 1 2 show ?thesis by simp
qed

lemma list_all_update_same:
  "list_all (\<lambda>(k, v). P k) al \<Longrightarrow> has_key al k \<Longrightarrow> list_all (\<lambda>(k, v). P k) (AList.update k v al)"
  by (induction al) (auto simp: has_key_def split: if_splits)

lemma no_excluded_edges_has_key:
  assumes "no_excluded_edges be opts st" "has_key (edges_of st d) y"
  shows "edge_target_ok be opts y"
proof -
  from assms(2) obtain em where em: "map_of (dependencies st) d = Some em" "y \<in> fst ` set em"
    by (cases "map_of (dependencies st) d") (auto simp: edges_of_def has_key_iff)
  from list_all_map_of [OF assms(1) [unfolded no_excluded_edges_def] em(1)]
  have "list_all (\<lambda>(y, srcs). edge_target_ok be opts y) em" by simp
  with em(2) show ?thesis by (auto simp: list_all_iff)
qed

lemma process_blame_hunk_excluded:
  assumes c: "cache_ok be st" and g: "get_commit be st (orig_commit_id bh) = Inr (dep, st1)"
    and x: "is_excluded_spec be opts (cid dep)"
    and run: "process_blame_hunk be opts st dependent dsha parent p bh ltc = Inr (st', ltc')"
  shows "only_caches st st'"
  using run
proof (cases rule: process_blame_hunk_cases)
  case (excluded dep' st1')
  with g have e: "dep' = dep" "st1' = st1" by simp_all
  from get_commit_ok [OF c g] have 1: "cache_ok be st1" "only_caches st st1" by simp_all
  from is_excluded_ok [OF 1(1) excluded(2) [unfolded e]] have "only_caches st1 st'" by simp
  with 1(2) show ?thesis by (rule only_caches_trans)
next
  case (recorded dep' st1' st2 st3 em)
  with g have e: "dep' = dep" "st1' = st1" by simp_all
  from get_commit_ok [OF c g] have 1: "cache_ok be st1" by simp
  from is_excluded_ok [OF 1 recorded(2) [unfolded e]] x show ?thesis by simp
qed

lemma graph_only_no_excluded_edges: "graph_only (no_excluded_edges be opts)"
  by (simp add: graph_only_def no_excluded_edges_def)

lemma register_ok_no_excluded_edges: "register_ok (no_excluded_edges be opts) dependent"
  unfolding register_ok_def no_excluded_edges_def
  using register_new_dependent_effect
  by (auto simp: list_all_update)

lemma hunk_step_ok_no_excluded_edges:
  "hunk_step_ok be opts (no_excluded_edges be opts) dependent parent"
  unfolding hunk_step_ok_def
proof (intro allI impI)
  fix st p h bh ltc st' ltc'
  assume I: "no_excluded_edges be opts st" and c: "cache_ok be st"
    and run: "process_blame_hunk be opts st dependent (cid dependent) parent p bh ltc
              = Inr (st', ltc')"
  from run show "no_excluded_edges be opts st'"
  proof (cases rule: process_blame_hunk_cases)
    case (excluded dep st1)
    from get_commit_ok [OF c excluded(1)] have 1: "cache_ok be st1" "only_caches st st1"
      by simp_all
    from is_excluded_ok [OF 1(1) excluded(2)] have "only_caches st1 st'" by simp
    with 1(2) I show ?thesis by (simp add: only_caches_def no_excluded_edges_def)
  next
    case (recorded dep st1 st2 st3 em)
    from get_commit_ok [OF c recorded(1)]
    have 1: "cache_ok be st1" "only_caches st st1" "ref_commit be (orig_commit_id bh) = Some dep"
      by simp_all
    from is_excluded_ok [OF 1(1) recorded(2)]
    have 2: "cache_ok be st2" "only_caches st1 st2" "\<not> is_excluded_spec be opts (cid dep)"
      by simp_all
    from 1(3) 2(3) have ok: "edge_target_ok be opts (orig_commit_id bh)"
      by (simp add: edge_target_ok_def)
    from 1(2) 2(2) I have I2: "no_excluded_edges be opts st2"
      by (simp add: only_caches_def no_excluded_edges_def)
    have I3: "no_excluded_edges be opts st3"
    proof (cases "has_key em (orig_commit_id bh)")
      case True
      with recorded(4) I2 show ?thesis by simp
    next
      case False
      with recorded(4) have "process_new_dependency opts st2 dependent (cid dependent) dep
          (orig_commit_id bh) p (final_start_line_number bh) = Inr st3" by simp
      from process_new_dependency_effect [OF seen_commit_object [OF 2(1)] this]
      obtain em' where em': "map_of (dependencies st2) (cid dependent) = Some em'"
        and d3: "dependencies st3 = AList.update (cid dependent)
           (AList.update (orig_commit_id bh) [] em') (dependencies st2)"
        by auto
      from list_all_map_of [OF I2 [unfolded no_excluded_edges_def] em']
      have "list_all (\<lambda>(y, srcs). edge_target_ok be opts y) em'" by simp
      then have "list_all (\<lambda>(y, srcs). edge_target_ok be opts y)
                   (AList.update (orig_commit_id bh) [] em')"
        using ok by (intro list_all_update) simp_all
      with I2 show ?thesis
        unfolding no_excluded_edges_def d3 by (intro list_all_update) simp_all
    qed
    from record_dependency_source_effect [OF recorded(5)]
    obtain em' v where em': "map_of (dependencies st3) (cid dependent) = Some em'"
      and d': "dependencies st' = AList.update (cid dependent)
         (AList.update (orig_commit_id bh) v em') (dependencies st3)"
      by blast
    from list_all_map_of [OF I3 [unfolded no_excluded_edges_def] em']
    have "list_all (\<lambda>(y, srcs). edge_target_ok be opts y) em'" by simp
    then have "list_all (\<lambda>(y, srcs). edge_target_ok be opts y)
                 (AList.update (orig_commit_id bh) v em')"
      using ok by (intro list_all_update) simp_all
    with I3 show ?thesis
      unfolding no_excluded_edges_def d' by (intro list_all_update) simp_all
  qed
qed

lemma run_step_ok_no_excluded_edges: "run_step_ok be opts (no_excluded_edges be opts)"
  by (simp add: run_step_ok_def graph_only_no_excluded_edges
      register_ok_no_excluded_edges hunk_step_ok_no_excluded_edges)

lemma is_excluded_total:
  assumes "cache_ok be st"
    and "case exclude_commits opts of None \<Rightarrow> True
         | Some excl \<Rightarrow> \<forall>x \<in> set excl. \<exists>bc. ref_commit be x = Some bc
                                 \<and> merge_base be (cid c) (cid bc) \<noteq> None"
  shows "\<exists>b st'. is_excluded be opts st c = Inr (b, st')"
proof (cases "exclude_commits opts")
  case None
  then have "is_excluded be opts st c = Inr (False, st)" by (simp add: is_excluded_def)
  then show ?thesis by blast
next
  case (Some excl)
  with assms(2) is_excluded_loop_total [OF assms(1), of excl c] show ?thesis
    by (simp add: is_excluded_def)
qed

lemma is_excluded_spec_iff:
  "is_excluded_spec be opts x
   = (\<exists>excl boundary bc. exclude_commits opts = Some excl \<and> boundary \<in> set excl
        \<and> ref_commit be boundary = Some bc \<and> merge_base be x (cid bc) = Some x)"
  by (cases "exclude_commits opts")
     (auto simp: is_excluded_spec_def excluded_by_def list_ex_iff split: option.splits)

lemma ex_excl_run_returns:
  "\<exists>st_end. find_dependencies ex_backend ex_options_excl init ''c'' None = Some (Inr st_end)"
proof -
  have "\<not> Option.is_none (find_dependencies ex_backend ex_options_excl init ''c'' None)"
    "\<not> isl (the (find_dependencies ex_backend ex_options_excl init ''c'' None))"
    by code_simp+
  then show ?thesis
    by (cases "find_dependencies ex_backend ex_options_excl init ''c'' None";
        cases "the (find_dependencies ex_backend ex_options_excl init ''c'' None)")
       (auto simp: Option.is_none_def)
qed

subsection \<open>Exclusion by ancestry\<close>

text \<open>
  C3. In a detector whose caches agree with the backend (\<open>cache_ok\<close>, true initially
  and kept by every operation), a normal return of \<open>is_excluded\<close> on a candidate is
  true exactly when some configured excluded boundary resolves to a commit \<open>B\<close> with
  merge_base(candidate, B) = candidate. It is false when no exclusions are configured,
  and it does return normally when every configured boundary resolves and the merge
  base query succeeds. When the candidate named by a blame result is excluded,
  \<open>process_blame_hunk\<close> changes neither the graph nor the worklist and fires no
  notification. Over a whole run no edge to an excluded commit is recorded: every
  dependency key of the graph resolves to a commit that is not excluded.
\<close>

theorem is_excluded_ancestry:
  "(cache_ok be st \<and> is_excluded be opts st c = Inr (b, st')
      \<longrightarrow> cache_ok be st'
          \<and> b = (\<exists>excl boundary bc. exclude_commits opts = Some excl \<and> boundary \<in> set excl
                    \<and> ref_commit be boundary = Some bc
                    \<and> merge_base be (cid c) (cid bc) = Some (cid c)))
   \<and> (exclude_commits opts = None \<or> exclude_commits opts = Some []
      \<longrightarrow> is_excluded be opts st c = Inr (False, st))
   \<and> (cache_ok be st
       \<and> (\<forall>excl boundary. exclude_commits opts = Some excl \<longrightarrow> boundary \<in> set excl
            \<longrightarrow> (\<exists>bc. ref_commit be boundary = Some bc
                      \<and> merge_base be (cid c) (cid bc) \<noteq> None))
      \<longrightarrow> (\<exists>r s. is_excluded be opts st c = Inr (r, s)))
   \<and> (cache_ok be st \<and> get_commit be st (orig_commit_id bh) = Inr (dep, st_g)
       \<and> is_excluded_spec be opts (cid dep)
       \<and> process_blame_hunk be opts st dependent dsha parent p bh ltc = Inr (st_x, ltc_x)
      \<longrightarrow> dependencies st_x = dependencies st \<and> events st_x = events st
          \<and> todo st_x = todo st)
   \<and> (run_inv be st \<and> no_excluded_edges be opts st
       \<and> find_dependencies be opts st dependent_rev recurse_arg = Some (Inr st_end)
      \<longrightarrow> no_excluded_edges be opts st_end
          \<and> (\<forall>d y. has_key (edges_of st_end d) y
                \<longrightarrow> (\<exists>target. ref_commit be y = Some target
                       \<and> \<not> is_excluded_spec be opts (cid target))))"
proof -
  have A: "cache_ok be st \<and> is_excluded be opts st c = Inr (b, st')
      \<longrightarrow> cache_ok be st'
          \<and> b = (\<exists>excl boundary bc. exclude_commits opts = Some excl \<and> boundary \<in> set excl
                    \<and> ref_commit be boundary = Some bc
                    \<and> merge_base be (cid c) (cid bc) = Some (cid c))"
    using is_excluded_ok [where be = be and st = st and opts = opts and c = c and b = b
        and st' = st']
      is_excluded_spec_iff [of be opts "cid c"]
    by simp
  have B: "exclude_commits opts = None \<or> exclude_commits opts = Some []
      \<longrightarrow> is_excluded be opts st c = Inr (False, st)"
    by (auto simp: is_excluded_def)
  have C: "cache_ok be st
       \<and> (\<forall>excl boundary. exclude_commits opts = Some excl \<longrightarrow> boundary \<in> set excl
            \<longrightarrow> (\<exists>bc. ref_commit be boundary = Some bc
                      \<and> merge_base be (cid c) (cid bc) \<noteq> None))
      \<longrightarrow> (\<exists>r s. is_excluded be opts st c = Inr (r, s))"
  proof
    assume h: "cache_ok be st
       \<and> (\<forall>excl boundary. exclude_commits opts = Some excl \<longrightarrow> boundary \<in> set excl
            \<longrightarrow> (\<exists>bc. ref_commit be boundary = Some bc
                      \<and> merge_base be (cid c) (cid bc) \<noteq> None))"
    then have "case exclude_commits opts of None \<Rightarrow> True
         | Some excl \<Rightarrow> \<forall>x \<in> set excl. \<exists>bc. ref_commit be x = Some bc
                                 \<and> merge_base be (cid c) (cid bc) \<noteq> None"
      by (cases "exclude_commits opts") auto
    with h show "\<exists>r s. is_excluded be opts st c = Inr (r, s)"
      using is_excluded_total [where be = be and st = st and opts = opts and c = c] by blast
  qed
  have D: "cache_ok be st \<and> get_commit be st (orig_commit_id bh) = Inr (dep, st_g)
       \<and> is_excluded_spec be opts (cid dep)
       \<and> process_blame_hunk be opts st dependent dsha parent p bh ltc = Inr (st_x, ltc_x)
      \<longrightarrow> dependencies st_x = dependencies st \<and> events st_x = events st
          \<and> todo st_x = todo st"
  proof
    assume h: "cache_ok be st \<and> get_commit be st (orig_commit_id bh) = Inr (dep, st_g)
       \<and> is_excluded_spec be opts (cid dep)
       \<and> process_blame_hunk be opts st dependent dsha parent p bh ltc = Inr (st_x, ltc_x)"
    then have h4: "cache_ok be st" "get_commit be st (orig_commit_id bh) = Inr (dep, st_g)"
      "is_excluded_spec be opts (cid dep)"
      "process_blame_hunk be opts st dependent dsha parent p bh ltc = Inr (st_x, ltc_x)"
      by simp_all
    have "only_caches st st_x" by (rule process_blame_hunk_excluded [OF h4])
    then show "dependencies st_x = dependencies st \<and> events st_x = events st
          \<and> todo st_x = todo st"
      by (simp add: only_caches_def)
  qed
  have E: "run_inv be st \<and> no_excluded_edges be opts st
       \<and> find_dependencies be opts st dependent_rev recurse_arg = Some (Inr st_end)
      \<longrightarrow> no_excluded_edges be opts st_end
          \<and> (\<forall>d y. has_key (edges_of st_end d) y
                \<longrightarrow> (\<exists>target. ref_commit be y = Some target
                       \<and> \<not> is_excluded_spec be opts (cid target)))"
  proof
    assume h: "run_inv be st \<and> no_excluded_edges be opts st
       \<and> find_dependencies be opts st dependent_rev recurse_arg = Some (Inr st_end)"
    then have "cache_ok be st" "set (todo st) \<subseteq> ran (ref_commit be)"
      by (simp_all add: run_inv_def)
    from find_dependencies_invariant [OF run_step_ok_no_excluded_edges _ this] h
    have n: "no_excluded_edges be opts st_end" by blast
    have "\<forall>d y. has_key (edges_of st_end d) y
                \<longrightarrow> (\<exists>target. ref_commit be y = Some target
                       \<and> \<not> is_excluded_spec be opts (cid target))"
    proof (intro allI impI)
      fix d y assume "has_key (edges_of st_end d) y"
      from no_excluded_edges_has_key [OF n this]
      show "\<exists>target. ref_commit be y = Some target \<and> \<not> is_excluded_spec be opts (cid target)"
        by (cases "ref_commit be y") (simp_all add: edge_target_ok_def)
    qed
    with n show "no_excluded_edges be opts st_end
          \<and> (\<forall>d y. has_key (edges_of st_end d) y
                \<longrightarrow> (\<exists>target. ref_commit be y = Some target
                       \<and> \<not> is_excluded_spec be opts (cid target)))"
      by simp
  qed
  show ?thesis by (rule conjI [OF A conjI [OF B conjI [OF C conjI [OF D E]]]])
qed

theorem is_excluded_ancestry_witness:
  "cache_ok ex_backend init
   \<and> map_sum id fst (is_excluded ex_backend ex_options_excl init commit_a) = Inr True
   \<and> map_sum id fst (is_excluded ex_backend ex_options_excl init commit_b) = Inr False
   \<and> exclude_commits ex_options = None
   \<and> is_excluded ex_backend ex_options init commit_a = Inr (False, init)
   \<and> run_inv ex_backend init \<and> no_excluded_edges ex_backend ex_options_excl init
   \<and> is_excluded_spec ex_backend ex_options_excl ''a''
   \<and> map_option (map_sum id (\<lambda>s. (edges s, no_excluded_edges ex_backend ex_options_excl s)))
        (find_dependencies ex_backend ex_options_excl init ''c'' None)
       = Some (Inr ([ [(''c'', ''b'')], []], True))"
proof -
  have c: "cache_ok ex_backend init" by (rule cache_ok_init)
  have i: "run_inv ex_backend init" "no_excluded_edges ex_backend ex_options_excl init"
    by (rule run_inv_init) (simp add: no_excluded_edges_def init_def)
  have n: "exclude_commits ex_options = None" by (simp add: ex_options_def)
  have xa: "is_excluded_spec ex_backend ex_options_excl ''a''"
    by (simp add: is_excluded_spec_def excluded_by_def ex_options_excl_def ex_options_def
        ex_backend_def commit_a_def)
  have ea: "map_sum id fst (is_excluded ex_backend ex_options_excl init commit_a) = Inr True"
    and eb: "map_sum id fst (is_excluded ex_backend ex_options_excl init commit_b) = Inr False"
    by code_simp+
  have e: "map_option (map_sum id edges)
        (find_dependencies ex_backend ex_options_excl init ''c'' None)
       = Some (Inr [ [(''c'', ''b'')], []])"
    by code_simp
  from ex_excl_run_returns obtain st_end where
    r: "find_dependencies ex_backend ex_options_excl init ''c'' None = Some (Inr st_end)" ..
  note w = is_excluded_ancestry [where be = ex_backend and st = init and opts = ex_options
      and c = commit_a]
  from w [THEN conjunct2, THEN conjunct1] n
  have b: "is_excluded ex_backend ex_options init commit_a = Inr (False, init)" by blast
  note v = is_excluded_ancestry [where be = ex_backend and st = init
      and opts = ex_options_excl and dependent_rev = "''c''" and recurse_arg = None
      and st_end = st_end]
  from v [THEN conjunct2, THEN conjunct2, THEN conjunct2, THEN conjunct2] i r
  have "no_excluded_edges ex_backend ex_options_excl st_end" by blast
  with c i n xa ea eb e b r show ?thesis by simp
qed

lemma blame_never_names_dependent:
  assumes "blame_within_history be opts" "acyclic_history be"
    and "dependent \<in> ran (ref_commit be)" "parents dependent = parent # others"
    and "bh \<in> set (run_blame be opts h parent p)"
  shows "orig_commit_id bh \<noteq> cid dependent"
proof -
  from assms(1,3,4,5) have "orig_commit_id bh \<in> history parent"
    unfolding blame_within_history_def by blast
  moreover from assms(2,3,4) have "cid dependent \<notin> history parent"
    unfolding acyclic_history_def by auto
  ultimately show ?thesis by auto
qed

lemma no_self_edges_has_key:
  assumes "no_self_edges st"
  shows "\<not> has_key (edges_of st c) c"
proof (cases "map_of (dependencies st) c")
  case None
  then show ?thesis by (simp add: edges_of_def has_key_def)
next
  case (Some em)
  from list_all_map_of [OF assms [unfolded no_self_edges_def] Some] Some
  show ?thesis by (simp add: edges_of_def)
qed

lemma self_edge_in_edges:
  assumes "(c, c) \<in> set (concat (edges st))"
  shows "has_key (edges_of st c) c"
  using assms by (auto simp: edges_def edges_of_def has_key_iff)

lemma graph_only_no_self_edges: "graph_only no_self_edges"
  by (simp add: graph_only_def no_self_edges_def)

lemma register_ok_no_self_edges: "register_ok no_self_edges dependent"
  unfolding register_ok_def no_self_edges_def
  using register_new_dependent_effect
  by (auto simp: list_all_update has_key_def)

lemma no_self_edges_update:
  assumes "no_self_edges st" "map_of (dependencies st) d = Some em" "y \<noteq> d"
    and "dependencies st' = AList.update d (AList.update y v em) (dependencies st)"
  shows "no_self_edges st'"
proof -
  from list_all_map_of [OF assms(1) [unfolded no_self_edges_def] assms(2)]
  have "\<not> has_key em d" by simp
  with assms(3) have "\<not> has_key (AList.update y v em) d" by (simp add: has_key_update)
  with assms(1) show ?thesis
    unfolding no_self_edges_def assms(4) by (intro list_all_update) simp_all
qed

lemma process_blame_hunk_no_self_edges:
  assumes I: "no_self_edges st" and c: "cache_ok be st"
    and ne: "orig_commit_id bh \<noteq> cid dependent"
    and run: "process_blame_hunk be opts st dependent (cid dependent) parent p bh ltc
              = Inr (st', ltc')"
  shows "no_self_edges st'"
  using run
proof (cases rule: process_blame_hunk_cases)
  case (excluded dep st1)
  from get_commit_ok [OF c excluded(1)] have 1: "cache_ok be st1" "only_caches st st1"
    by simp_all
  from is_excluded_ok [OF 1(1) excluded(2)] have "only_caches st1 st'" by simp
  with 1(2) I show ?thesis by (simp add: only_caches_def no_self_edges_def)
next
  case (recorded dep st1 st2 st3 em)
  from get_commit_ok [OF c recorded(1)] have 1: "cache_ok be st1" "only_caches st st1"
    by simp_all
  from is_excluded_ok [OF 1(1) recorded(2)] have 2: "cache_ok be st2" "only_caches st1 st2"
    by simp_all
  from 1(2) 2(2) I have I2: "no_self_edges st2"
    by (simp add: only_caches_def no_self_edges_def)
  have I3: "no_self_edges st3"
  proof (cases "has_key em (orig_commit_id bh)")
    case True
    with recorded(4) I2 show ?thesis by simp
  next
    case False
    with recorded(4) have "process_new_dependency opts st2 dependent (cid dependent) dep
        (orig_commit_id bh) p (final_start_line_number bh) = Inr st3" by simp
    from process_new_dependency_effect [OF seen_commit_object [OF 2(1)] this]
    obtain em' where "map_of (dependencies st2) (cid dependent) = Some em'"
      "dependencies st3 = AList.update (cid dependent)
         (AList.update (orig_commit_id bh) [] em') (dependencies st2)"
      by auto
    from no_self_edges_update [OF I2 this(1) ne this(2)] show ?thesis .
  qed
  from record_dependency_source_effect [OF recorded(5)]
  obtain em' v where "map_of (dependencies st3) (cid dependent) = Some em'"
    "dependencies st' = AList.update (cid dependent)
       (AList.update (orig_commit_id bh) v em') (dependencies st3)"
    by blast
  from no_self_edges_update [OF I3 this(1) ne this(2)] show ?thesis .
qed

lemma run_step_ok_no_self_edges:
  assumes "blame_within_history be opts" "acyclic_history be"
  shows "run_step_ok be opts no_self_edges"
  unfolding run_step_ok_def
proof (intro conjI ballI allI impI)
  show "graph_only no_self_edges" by (rule graph_only_no_self_edges)
next
  fix dependent assume "dependent \<in> ran (ref_commit be)"
  show "register_ok no_self_edges dependent" by (rule register_ok_no_self_edges)
next
  fix dependent parent others
  assume d: "dependent \<in> ran (ref_commit be)" and p: "parents dependent = parent # others"
  show "hunk_step_ok be opts no_self_edges dependent parent"
    unfolding hunk_step_ok_def
  proof (intro allI impI)
    fix st p' h bh ltc st' ltc'
    assume I: "no_self_edges st" and c: "cache_ok be st"
      and b: "bh \<in> set (run_blame be opts h parent p')"
      and run: "process_blame_hunk be opts st dependent (cid dependent) parent p' bh ltc
                = Inr (st', ltc')"
    from blame_never_names_dependent [OF assms d p b]
    have "orig_commit_id bh \<noteq> cid dependent" .
    from process_blame_hunk_no_self_edges [OF I c this run] show "no_self_edges st'" .
  qed
qed

lemma ex_blame_within_history: "blame_within_history ex_backend ex_options"
  by (auto simp: blame_within_history_def ex_backend_ran run_blame_def ex_backend_def
      ex_options_def ex_blame_def commit_a_def commit_b_def commit_c_def)

lemma ex_acyclic_history: "acyclic_history ex_backend"
  by (auto simp: acyclic_history_def ex_backend_ran commit_a_def commit_b_def commit_c_def)

subsection \<open>No self-edges\<close>

text \<open>
  C5. Assume that line attribution on the first parent's tree only names commits of the
  parent's history (\<open>blame_within_history\<close>) and that the history is well-formed: the
  hash of a commit is not the hash of one of its ancestors (\<open>acyclic_history\<close>). Then no
  blame result names the dependent itself, and the graph never holds an edge (C, C):
  the only insertion path, \<open>process_blame_hunk\<close>, keeps the graph free of self-edges,
  so does every turn of the worklist loop, and so does a whole run of
  \<open>find_dependencies\<close>, after which no commit is a dependency key of its own edge map
  and \<open>edges\<close> holds no pair (C, C).
\<close>

theorem no_self_dependency:
  assumes "blame_within_history be opts" and "acyclic_history be"
  shows "(dependent \<in> ran (ref_commit be) \<and> parents dependent = parent # others
          \<and> bh \<in> set (run_blame be opts h parent p)
         \<longrightarrow> orig_commit_id bh \<noteq> cid dependent
             \<and> (cache_ok be s \<and> no_self_edges s
                 \<and> process_blame_hunk be opts s dependent (cid dependent) parent p bh ltc
                     = Inr (s_hunk, ltc_hunk)
                \<longrightarrow> no_self_edges s_hunk))
       \<and> (run_inv be s \<and> no_self_edges s \<and> todo s \<noteq> []
           \<and> process_todo be opts s = Inr s_turn
          \<longrightarrow> no_self_edges s_turn)
       \<and> (run_inv be st \<and> no_self_edges st
           \<and> find_dependencies be opts st dependent_rev recurse_arg = Some (Inr st_end)
          \<longrightarrow> no_self_edges st_end
              \<and> (\<forall>c. \<not> has_key (edges_of st_end c) c)
              \<and> (\<forall>c. (c, c) \<notin> set (concat (edges st_end))))"
proof -
  note ok = run_step_ok_no_self_edges [OF assms]
  have A: "dependent \<in> ran (ref_commit be) \<and> parents dependent = parent # others
          \<and> bh \<in> set (run_blame be opts h parent p)
         \<longrightarrow> orig_commit_id bh \<noteq> cid dependent
             \<and> (cache_ok be s \<and> no_self_edges s
                 \<and> process_blame_hunk be opts s dependent (cid dependent) parent p bh ltc
                     = Inr (s_hunk, ltc_hunk)
                \<longrightarrow> no_self_edges s_hunk)"
  proof
    assume h: "dependent \<in> ran (ref_commit be) \<and> parents dependent = parent # others
          \<and> bh \<in> set (run_blame be opts h parent p)"
    then have h3: "dependent \<in> ran (ref_commit be)" "parents dependent = parent # others"
      "bh \<in> set (run_blame be opts h parent p)"
      by simp_all
    from blame_never_names_dependent [OF assms h3]
    have ne: "orig_commit_id bh \<noteq> cid dependent" .
    have "cache_ok be s \<and> no_self_edges s
                 \<and> process_blame_hunk be opts s dependent (cid dependent) parent p bh ltc
                     = Inr (s_hunk, ltc_hunk)
                \<longrightarrow> no_self_edges s_hunk"
      using process_blame_hunk_no_self_edges [OF _ _ ne] by blast
    with ne show "orig_commit_id bh \<noteq> cid dependent
             \<and> (cache_ok be s \<and> no_self_edges s
                 \<and> process_blame_hunk be opts s dependent (cid dependent) parent p bh ltc
                     = Inr (s_hunk, ltc_hunk)
                \<longrightarrow> no_self_edges s_hunk)"
      by simp
  qed
  have B: "run_inv be s \<and> no_self_edges s \<and> todo s \<noteq> []
           \<and> process_todo be opts s = Inr s_turn
          \<longrightarrow> no_self_edges s_turn"
  proof
    assume h: "run_inv be s \<and> no_self_edges s \<and> todo s \<noteq> []
           \<and> process_todo be opts s = Inr s_turn"
    then have h5: "no_self_edges s" "cache_ok be s" "set (todo s) \<subseteq> ran (ref_commit be)"
      "todo s \<noteq> []" "process_todo be opts s = Inr s_turn"
      by (simp_all add: run_inv_def)
    from process_todo_invariant [OF ok h5] show "no_self_edges s_turn" by simp
  qed
  have C: "run_inv be st \<and> no_self_edges st
           \<and> find_dependencies be opts st dependent_rev recurse_arg = Some (Inr st_end)
          \<longrightarrow> no_self_edges st_end
              \<and> (\<forall>c. \<not> has_key (edges_of st_end c) c)
              \<and> (\<forall>c. (c, c) \<notin> set (concat (edges st_end)))"
  proof
    assume h: "run_inv be st \<and> no_self_edges st
           \<and> find_dependencies be opts st dependent_rev recurse_arg = Some (Inr st_end)"
    then have h4: "no_self_edges st" "cache_ok be st" "set (todo st) \<subseteq> ran (ref_commit be)"
      "find_dependencies be opts st dependent_rev recurse_arg = Some (Inr st_end)"
      by (simp_all add: run_inv_def)
    from find_dependencies_invariant [OF ok h4] have n: "no_self_edges st_end" .
    then have k: "\<forall>c. \<not> has_key (edges_of st_end c) c"
      by (simp add: no_self_edges_has_key)
    then have "\<forall>c. (c, c) \<notin> set (concat (edges st_end))"
      using self_edge_in_edges by blast
    with n k show "no_self_edges st_end
              \<and> (\<forall>c. \<not> has_key (edges_of st_end c) c)
              \<and> (\<forall>c. (c, c) \<notin> set (concat (edges st_end)))"
      by simp
  qed
  show ?thesis by (rule conjI [OF A conjI [OF B C]])
qed

theorem no_self_dependency_witness:
  "blame_within_history ex_backend ex_options \<and> acyclic_history ex_backend
   \<and> run_inv ex_backend init \<and> no_self_edges init
   \<and> map_option (map_sum id (\<lambda>s. (edges s, no_self_edges s)))
        (find_dependencies ex_backend ex_options init ''c'' None)
       = Some (Inr ([ [(''c'', ''b'')], [(''b'', ''a'')]], True))"
proof -
  have i: "run_inv ex_backend init" "no_self_edges init"
    by (rule run_inv_init) (simp add: no_self_edges_def init_def)
  have e: "map_option (map_sum id edges) (find_dependencies ex_backend ex_options init ''c'' None)
       = Some (Inr [ [(''c'', ''b'')], [(''b'', ''a'')]])"
    by code_simp
  from ex_run_returns obtain st_end where
    r: "find_dependencies ex_backend ex_options init ''c'' None = Some (Inr st_end)" ..
  note w = no_self_dependency [OF ex_blame_within_history ex_acyclic_history,
      where st = init and dependent_rev = "''c''" and recurse_arg = None and st_end = st_end]
  from w [THEN conjunct2, THEN conjunct2] i r have "no_self_edges st_end" by blast
  with ex_blame_within_history ex_acyclic_history i e r show ?thesis by simp
qed

lemma find_dependencies_cache_ok:
  assumes c: "cache_ok be st" and t: "set (todo st) \<subseteq> ran (ref_commit be)"
    and run: "find_dependencies be opts st dependent_rev recurse_arg = Some (Inr st')"
  shows "cache_ok be st'"
proof -
  from run obtain seed st1 where g: "get_commit be st dependent_rev = Inr (seed, st1)"
    by (cases "get_commit be st dependent_rev") (auto simp: find_dependencies_def abort_def)
  define st2 where "st2 = st1\<lparr>todo := todo st1 @ [seed],
                                todo_d := AList.update (cid seed) True (todo_d st1)\<rparr>"
  from run g obtain st3 where l: "todo_loop be opts st2 = Some (Inr st3)"
    and st': "st' = notify_listeners All_done st3"
    by (auto simp: find_dependencies_def st2_def split: option.splits sum.splits)
  from get_commit_ok [OF c g]
  have 1: "cache_ok be st1" "only_caches st st1" "ref_commit be dependent_rev = Some seed"
    by simp_all
  let ?J = "\<lambda>s. cache_ok be s \<and> set (todo s) \<subseteq> ran (ref_commit be)"
  have "cache_ok be st2" using 1(1) by (simp add: cache_ok_def st2_def)
  moreover have "set (todo st2) \<subseteq> ran (ref_commit be)"
    using t 1(2,3) by (auto simp: st2_def only_caches_def ran_def)
  ultimately have J2: "?J st2" by simp
  have step: "\<And>s s1. ?J s \<Longrightarrow> todo s \<noteq> [] \<Longrightarrow> process_todo be opts s = Inr s1 \<Longrightarrow> ?J s1"
  proof -
    fix s s1 assume a: "?J s" "todo s \<noteq> []" "process_todo be opts s = Inr s1"
    from process_todo_invariant [OF run_step_ok_True _ _ _ a(2,3)] a(1)
    show "?J s1" by (simp add: turn_post_def)
  qed
  from todo_loop_invariant [of ?J be opts st2 st3, OF step l J2] have "cache_ok be st3" by simp
  then show ?thesis by (simp add: st' cache_ok_def notify_fields)
qed

lemma process_todo_events:
  assumes c: "cache_ok be st" and t: "set (todo st) \<subseteq> ran (ref_commit be)"
    and td: "todo st = x # rest" and run: "process_todo be opts st = Inr st'"
  shows "if has_key (done_d st) (cid x) then events st' = events st
         else (\<exists>evs. events st' = events st @ New_commit x # evs)"
  using td run
proof (cases rule: process_todo_cases)
  case skipped
  then show ?thesis by (simp add: popped_fields)
next
  case root
  then show ?thesis by (simp add: finished_fields notify_fields popped_fields)
next
  case (child parent others st2)
  define st1 where "st1 = notify_listeners (New_commit x) (popped st)"
  have c1: "cache_ok be st1"
    using c cache_ok_cong [of st1 st be] by (simp add: st1_def notify_fields popped_fields)
  have "hunk_step_ok be opts (\<lambda>s. True) x parent" "register_ok (\<lambda>s. True) x"
    by (simp_all add: hunk_step_ok_def register_ok_def)
  from find_dependencies_with_parent_invariant [OF this _ c1 child(4) [folded st1_def]]
  have "frame be st1 st2" by (simp add: inner_post_def)
  then obtain evs where "events st2 = events st1 @ evs" unfolding frame_def by blast
  then have "events st' = events st @ New_commit x # (evs @ [Dependent_done x (edges_of st2 (cid x))])"
    by (simp add: child(5) finished_fields st1_def notify_fields popped_fields)
  with child(2) show ?thesis by auto
qed

subsection \<open>Notifications of new commits\<close>

text \<open>
  C7, as stated, does not hold for every pop: a popped commit that is already done is
  skipped before the notification. After a first run on \<open>a\<close>, a second run on the same
  detector seeds \<open>a\<close> again; the turn that pops it changes nothing, and the second run
  adds \<open>all_done\<close> only: \<open>a\<close> was popped and received no \<open>new_commit\<close>.
\<close>

theorem new_commit_on_pop_counterexample:
  "find_dependencies ex_backend ex_options init ''a'' None = Some (Inr ex_after_a)
   \<and> todo (ex_after_a\<lparr>todo := [commit_a], todo_d := [(''a'', True)]\<rparr>) = [commit_a]
   \<and> process_todo ex_backend ex_options
        (ex_after_a\<lparr>todo := [commit_a], todo_d := [(''a'', True)]\<rparr>) = Inr ex_after_a
   \<and> todo ex_after_a = []
   \<and> events ex_after_a = [New_commit commit_a, Dependent_done commit_a [], All_done]
   \<and> find_dependencies ex_backend ex_options ex_after_a ''a'' None
       = Some (Inr (ex_after_a\<lparr>events := events ex_after_a @ [All_done]\<rparr>))"
proof -
  have 1: "find_dependencies ex_backend ex_options init ''a'' None = Some (Inr ex_after_a)"
    by code_simp
  have 2: "process_todo ex_backend ex_options
        (ex_after_a\<lparr>todo := [commit_a], todo_d := [(''a'', True)]\<rparr>) = Inr ex_after_a"
    by code_simp
  have 3: "find_dependencies ex_backend ex_options ex_after_a ''a'' None
       = Some (Inr (ex_after_a\<lparr>events := events ex_after_a @ [All_done]\<rparr>))"
    by code_simp
  have 4: "todo ex_after_a = []"
    "events ex_after_a = [New_commit commit_a, Dependent_done commit_a [], All_done]"
    by (simp_all add: ex_after_a_def init_def)
  from 1 2 3 4 show ?thesis by simp
qed

text \<open>
  C7, amended. In a detector whose commit cache agrees with the backend (\<open>cache_ok\<close>:
  its keys are revision strings; true initially and after every run),
  \<open>seen_commit\<close> is false for every commit object. Consequently every call of
  \<open>process_new_dependency\<close>, that is every newly registered (dependent, dependency)
  edge, fires \<open>new_commit\<close> for the dependency once, followed by \<open>new_dependency\<close>. A turn
  of the worklist loop fires \<open>new_commit\<close> for the popped commit first, unless that
  commit is already done: then the turn fires nothing. So a commit can receive several
  \<open>new_commit\<close> notifications in one run: in the run from \<open>c\<close> on the history
  \<open>a \<leftarrow> b \<leftarrow> c\<close>, \<open>b\<close> receives two.
\<close>

theorem new_commit_notifications:
  "(cache_ok be st \<longrightarrow> \<not> seen_commit st (KCommit c))
   \<and> (cache_ok be st \<and> set (todo st) \<subseteq> ran (ref_commit be)
       \<and> find_dependencies be opts st dependent_rev recurse_arg = Some (Inr st_end)
      \<longrightarrow> cache_ok be st_end)
   \<and> (cache_ok be st
       \<and> process_new_dependency opts st dependent dsha dependency ysha p n = Inr st_dep
      \<longrightarrow> events st_dep
            = events st @ [New_commit dependency, New_dependency dependent dependency p n]
          \<and> has_key (edges_of st_dep dsha) ysha)
   \<and> (cache_ok be st \<and> set (todo st) \<subseteq> ran (ref_commit be) \<and> todo st = x # rest
       \<and> process_todo be opts st = Inr st_turn
      \<longrightarrow> (if has_key (done_d st) (cid x) then events st_turn = events st
           else (\<exists>evs. events st_turn = events st @ New_commit x # evs)))
   \<and> map_option (map_sum id (\<lambda>s. length (filter (\<lambda>e. e = New_commit commit_b) (events s))))
        (find_dependencies ex_backend ex_options init ''c'' None) = Some (Inr 2)"
proof -
  have A: "cache_ok be st \<longrightarrow> \<not> seen_commit st (KCommit c)"
    using seen_commit_object [of be st c] by blast
  have B: "cache_ok be st \<and> set (todo st) \<subseteq> ran (ref_commit be)
       \<and> find_dependencies be opts st dependent_rev recurse_arg = Some (Inr st_end)
      \<longrightarrow> cache_ok be st_end"
    using find_dependencies_cache_ok [where be = be and st = st and opts = opts
        and dependent_rev = dependent_rev and recurse_arg = recurse_arg and st' = st_end]
    by blast
  have C: "cache_ok be st
       \<and> process_new_dependency opts st dependent dsha dependency ysha p n = Inr st_dep
      \<longrightarrow> events st_dep
            = events st @ [New_commit dependency, New_dependency dependent dependency p n]
          \<and> has_key (edges_of st_dep dsha) ysha"
  proof
    assume h: "cache_ok be st
       \<and> process_new_dependency opts st dependent dsha dependency ysha p n = Inr st_dep"
    then have "cache_ok be st" by simp
    then have s: "\<not> seen_commit st (KCommit dependency)" by (rule seen_commit_object)
    from process_new_dependency_effect [OF s] h obtain em where
      "dependencies st_dep = AList.update dsha (AList.update ysha [] em) (dependencies st)"
      "events st_dep
         = events st @ [New_commit dependency, New_dependency dependent dependency p n]"
      by blast
    then show "events st_dep
            = events st @ [New_commit dependency, New_dependency dependent dependency p n]
          \<and> has_key (edges_of st_dep dsha) ysha"
      by (simp add: edges_of_def update_conv' has_key_update)
  qed
  have D: "cache_ok be st \<and> set (todo st) \<subseteq> ran (ref_commit be) \<and> todo st = x # rest
       \<and> process_todo be opts st = Inr st_turn
      \<longrightarrow> (if has_key (done_d st) (cid x) then events st_turn = events st
           else (\<exists>evs. events st_turn = events st @ New_commit x # evs))"
    using process_todo_events [where be = be and st = st and x = x and rest = rest
        and opts = opts and st' = st_turn]
    by blast
  have E: "map_option (map_sum id (\<lambda>s. length (filter (\<lambda>e. e = New_commit commit_b) (events s))))
        (find_dependencies ex_backend ex_options init ''c'' None) = Some (Inr 2)"
    by code_simp
  show ?thesis by (rule conjI [OF A conjI [OF B conjI [OF C conjI [OF D E]]]])
qed

theorem new_commit_notifications_witness:
  "cache_ok ex_backend init \<and> \<not> seen_commit init (KCommit commit_b)
   \<and> cache_ok ex_backend (ex_queue [commit_c, commit_a])
   \<and> set (todo (ex_queue [commit_c, commit_a])) \<subseteq> ran (ref_commit ex_backend)
   \<and> todo (ex_queue [commit_c, commit_a]) = commit_c # [commit_a]
   \<and> \<not> has_key (done_d (ex_queue [commit_c, commit_a])) (cid commit_c)
   \<and> map_sum id (\<lambda>s. hd (events s))
        (process_todo ex_backend ex_options (ex_queue [commit_c, commit_a]))
       = Inr (New_commit commit_c)"
proof -
  have c: "cache_ok ex_backend init" by (rule cache_ok_init)
  have h: "cache_ok ex_backend (ex_queue [commit_c, commit_a])"
    "set (todo (ex_queue [commit_c, commit_a])) \<subseteq> ran (ref_commit ex_backend)"
    "todo (ex_queue [commit_c, commit_a]) = commit_c # [commit_a]"
    "\<not> has_key (done_d (ex_queue [commit_c, commit_a])) (cid commit_c)"
    "events (ex_queue [commit_c, commit_a]) = []"
    by (simp_all add: cache_ok_def ex_queue_def init_def ex_backend_ran has_key_def)
  have "\<not> isl (process_todo ex_backend ex_options (ex_queue [commit_c, commit_a]))"
    by code_simp
  then obtain st_turn where
    r: "process_todo ex_backend ex_options (ex_queue [commit_c, commit_a]) = Inr st_turn"
    by (cases "process_todo ex_backend ex_options (ex_queue [commit_c, commit_a])") simp_all
  note w = new_commit_notifications [where be = ex_backend and st = init and c = commit_b]
  from w [THEN conjunct1] c have s: "\<not> seen_commit init (KCommit commit_b)" by blast
  note v = new_commit_notifications [where be = ex_backend
      and st = "ex_queue [commit_c, commit_a]" and x = commit_c and rest = "[commit_a]"
      and opts = ex_options and st_turn = st_turn]
  from v [THEN conjunct2, THEN conjunct2, THEN conjunct2, THEN conjunct1] h(1-4) r
  have "\<exists>evs. events st_turn = events (ex_queue [commit_c, commit_a]) @ New_commit commit_c # evs"
    by simp
  then have "hd (events st_turn) = New_commit commit_c" by (auto simp: h(5))
  with c s h r show ?thesis by simp
qed

lemma tree_walk_unresolved:
  "\<not> resolves be obj segments \<Longrightarrow> \<not> gitlink_on_path be obj segments
   \<Longrightarrow> tree_walk be obj segments = Inr None"
proof (induction be obj segments rule: tree_walk.induct)
  case (1 be tree_or_blob)
  then show ?case by simp
next
  case (2 be tree_or_blob dirent segments)
  show ?case
  proof (cases tree_or_blob)
    case Blob
    then show ?thesis by simp
  next
    case (Tree entries)
    show ?thesis
    proof (cases "map_of entries dirent")
      case None
      with Tree show ?thesis by simp
    next
      case (Some oid)
      with Tree "2.prems"(2) obtain obj where o: "objects be oid = Some obj"
        by (cases "objects be oid") auto
      from Tree Some o "2.prems"(1) have s: "segments \<noteq> []" by auto
      from Tree Some o "2.prems" s have "\<not> resolves be obj segments"
        by (cases obj; cases segments) auto
      moreover from Tree Some o "2.prems"(2) have "\<not> gitlink_on_path be obj segments" by simp
      ultimately have "tree_walk be obj segments = Inr None"
        using "2.IH" [OF Tree Some o] by simp
      with Tree Some o show ?thesis by simp
    qed
  qed
qed

lemma tree_walk_gitlink:
  "gitlink_on_path be obj segments \<Longrightarrow> tree_walk be obj segments = Inl KeyError"
  by (induction be obj segments rule: tree_walk.induct)
     (auto split: git_object.splits option.splits)

lemma tree_walk_resolved:
  "resolves be obj segments \<Longrightarrow> \<not> gitlink_on_path be obj segments
   \<Longrightarrow> \<exists>target. tree_walk be obj segments = Inr (Some target)"
proof (induction be obj segments rule: tree_walk.induct)
  case (1 be tree_or_blob)
  then show ?case by simp
next
  case (2 be tree_or_blob dirent segments)
  from "2.prems"(1) obtain entries where Tree: "tree_or_blob = Tree entries"
    by (cases tree_or_blob) auto
  with "2.prems"(1) obtain oid where Some: "map_of entries dirent = Some oid"
    by (cases "map_of entries dirent") auto
  with Tree "2.prems"(2) obtain obj where o: "objects be oid = Some obj"
    by (cases "objects be oid") auto
  from Tree Some o "2.prems"(1) have "resolves be obj segments"
    by (cases obj; cases segments) auto
  moreover from Tree Some o "2.prems"(2) have "\<not> gitlink_on_path be obj segments" by simp
  ultimately have "\<exists>target. tree_walk be obj segments = Inr (Some target)"
    using "2.IH" [OF Tree Some o] by simp
  with Tree Some o show ?case by simp
qed

subsection \<open>Paths that do not resolve: the general case and a gitlink on the way\<close>

text \<open>
  \<open>path_resolves\<close> says in the words of the specification when a path resolves to an
  entry of a commit's tree: every segment is an entry of the tree reached so far, and
  every segment but the last names a tree. \<open>gitlink_on_path\<close> holds when the walk
  meets an entry whose object is not in the repository, as the entry of a submodule is.
  The three lemmas above give \<open>tree_walk\<close> in these terms. When a path does not
  resolve and meets no such entry, \<open>tree_lookup\<close> returns \<^verbatim>\<open>None\<close> and
  \<open>blame_diff_hunk\<close> returns normally with the detector unchanged (no dependent
  registered, no edge, no evidence, no notification), whatever the line attribution
  functions are, and the loop over the hunks goes on with the remaining hunks.
\<close>

lemma blame_diff_hunk_unresolved_path:
  assumes "\<not> path_resolves be p parent"
    and "\<not> gitlink_on_path be (tree parent) (split_slash p)"
  shows "tree_lookup be p parent = Inr None
       \<and> blame_diff_hunk be opts st dependent parent p h = Inr st
       \<and> blame_diff_hunk (be\<lparr>repo_blame := bl, blame_via_subprocess := bs\<rparr>) opts st
            dependent parent p h = Inr st
       \<and> hunks_loop be opts st dependent parent p (h # hs)
           = hunks_loop be opts st dependent parent p hs"
proof -
  from assms have t: "tree_lookup be p parent = Inr None"
    by (simp add: tree_lookup_def path_resolves_def tree_walk_unresolved)
  from blame_diff_hunk_skip [OF t, where bl = bl and bs = bs and opts = opts and st = st
      and dependent = dependent and h = h and hs = hs] t
  show ?thesis by simp
qed

lemma blame_diff_hunk_unresolved_path_example:
  "\<not> path_resolves ex_backend ''d/f'' commit_b
   \<and> \<not> path_resolves ex_backend ''new/f'' commit_b
   \<and> path_resolves ex_backend ''f'' commit_b
   \<and> blame_diff_hunk ex_backend ex_options init commit_c commit_b ''d/f'' (ex_hunk 2) = Inr init
   \<and> blame_diff_hunk ex_backend ex_options init commit_c commit_b ''new/f'' (ex_hunk 2) = Inr init"
proof -
  have 1: "\<not> path_resolves ex_backend ''d/f'' commit_b"
    "\<not> gitlink_on_path ex_backend (tree commit_b) (split_slash ''d/f'')"
    by (simp_all add: path_resolves_def commit_b_def ex_tree_def ex_backend_def)
  have 2: "\<not> path_resolves ex_backend ''new/f'' commit_b"
    "\<not> gitlink_on_path ex_backend (tree commit_b) (split_slash ''new/f'')"
    by (simp_all add: path_resolves_def commit_b_def ex_tree_def ex_backend_def)
  have 3: "path_resolves ex_backend ''f'' commit_b"
    by (simp add: path_resolves_def commit_b_def ex_tree_def ex_backend_def)
  show ?thesis
    using 1 2 3
      blame_diff_hunk_unresolved_path [OF 1, where opts = ex_options and st = init
        and dependent = commit_c and h = "ex_hunk 2"]
      blame_diff_hunk_unresolved_path [OF 2, where opts = ex_options and st = init
        and dependent = commit_c and h = "ex_hunk 2"]
    by simp
qed

text \<open>
  C9. A path that does not resolve is meant to be skipped: \<open>tree_lookup\<close> returns
  \<^verbatim>\<open>None\<close> for a segment that is absent and for an intermediate object that is not a
  tree. It reads the object of an entry from the repository before it looks at its kind,
  though, and that lookup raises \<^verbatim>\<open>KeyError\<close> for an entry whose object the repository
  does not hold. In the history below the parent has a submodule at \<open>m\<close> and the child
  replaces it by a directory with a file \<open>x\<close>: the path \<open>m/x\<close> of the diff does not
  resolve in the parent's tree, its intermediate segment not being a tree, and
  \<open>tree_lookup\<close>, \<open>blame_diff_hunk\<close>, the loop over the hunks and the whole run end
  with \<^verbatim>\<open>KeyError\<close> instead of skipping the hunk. Where the intermediate segment is a
  blob (\<open>d/f\<close> in the first history) the hunk is skipped.
\<close>

theorem blame_diff_hunk_gitlink_error:
  "\<not> path_resolves ex_gitlink_backend ''m/x'' ex_gitlink_parent
   \<and> tree_lookup ex_gitlink_backend ''m/x'' ex_gitlink_parent = Inl KeyError
   \<and> blame_diff_hunk ex_gitlink_backend ex_options init ex_gitlink_child ex_gitlink_parent
        ''m/x'' h = Inl KeyError
   \<and> hunks_loop ex_gitlink_backend ex_options init ex_gitlink_child ex_gitlink_parent
        ''m/x'' (h # hs) = Inl KeyError
   \<and> find_dependencies ex_gitlink_backend ex_options init ''q'' None = Some (Inl KeyError)
   \<and> \<not> path_resolves ex_backend ''d/f'' commit_b
   \<and> blame_diff_hunk ex_backend ex_options init commit_c commit_b ''d/f'' h = Inr init"
proof -
  have 1: "\<not> path_resolves ex_gitlink_backend ''m/x'' ex_gitlink_parent"
    by (simp add: path_resolves_def ex_gitlink_parent_def ex_gitlink_backend_def)
  have 2: "tree_lookup ex_gitlink_backend ''m/x'' ex_gitlink_parent = Inl KeyError"
    by (simp add: tree_lookup_def ex_gitlink_parent_def ex_gitlink_backend_def)
  have 3: "blame_diff_hunk ex_gitlink_backend ex_options init ex_gitlink_child ex_gitlink_parent
        ''m/x'' h = Inl KeyError"
    using 2 by (simp add: blame_diff_hunk_def)
  have 4: "hunks_loop ex_gitlink_backend ex_options init ex_gitlink_child ex_gitlink_parent
        ''m/x'' (h # hs) = Inl KeyError"
    using 3 by simp
  have 5: "find_dependencies ex_gitlink_backend ex_options init ''q'' None = Some (Inl KeyError)"
    by code_simp
  have 6: "\<not> path_resolves ex_backend ''d/f'' commit_b"
    by (simp add: path_resolves_def commit_b_def ex_tree_def ex_backend_def)
  have "tree_lookup ex_backend ''d/f'' commit_b = Inr None"
    by (simp add: tree_lookup_def commit_b_def ex_tree_def ex_backend_def)
  then have 7: "blame_diff_hunk ex_backend ex_options init commit_c commit_b ''d/f'' h = Inr init"
    by (simp add: blame_diff_hunk_def)
  from 1 2 3 4 5 6 7 show ?thesis by simp
qed

lemma find_dependencies_seeded:
  assumes "get_commit be s revision = Inr (seed, s1)"
  shows "find_dependencies be opts s revision a
           = map_option (map_sum id (notify_listeners All_done))
               (todo_loop be opts (seeded s1 seed))"
  using assms by (auto simp: find_dependencies_def seeded_def split: option.splits sum.splits)

lemma get_commit_only_caches:
  "get_commit be s revision = Inr (c, s1) \<Longrightarrow> only_caches s s1"
  by (auto simp: get_commit_def only_caches_def split: option.splits)

lemma done_seed_skipped:
  assumes t: "todo s = []" "todo_d s = []" and d: "has_key (done_d s) (cid seed)"
    and g: "get_commit be s revision = Inr (seed, s1)"
  shows "find_dependencies be opts s revision a = Some (Inr (notify_listeners All_done s1))"
proof -
  from get_commit_only_caches [OF g] t d
  have 1: "todo s1 = []" "todo_d s1 = []" "has_key (done_d s1) (cid seed)"
    by (simp_all add: only_caches_def)
  have p: "process_todo be opts (seeded s1 seed) = Inr s1"
    using 1 by (simp add: process_todo_def seeded_def has_key_def)
  have "todo_loop be opts s1 = Some (Inr s1)"
    using 1(1) by (subst todo_loop.simps) simp
  then have "todo_loop be opts (seeded s1 seed) = Some (Inr s1)"
    using p by (subst todo_loop.simps) (simp add: seeded_def)
  with find_dependencies_seeded [OF g, of opts a] show ?thesis by simp
qed

subsection \<open>Termination of the traversal\<close>

text \<open>
  C4, as stated, does not hold for the commit a run starts from: \<open>find_dependencies\<close>
  appends it to the worklist without looking at the done set or at the worklist. After
  a first run from \<open>a\<close> the commit \<open>a\<close> is done and the worklist is empty; a second
  call for \<open>a\<close> on the same detector enters the loop with \<open>a\<close> in the worklist
  again. On a detector whose worklist still holds \<open>c\<close>, a call for \<open>c\<close> enters the
  loop with \<open>c\<close> twice in the worklist, and the run ends with \<^verbatim>\<open>KeyError\<close> when it pops
  the second one.
\<close>

theorem done_seed_enqueued_again:
  "find_dependencies ex_backend ex_options init ''a'' None = Some (Inr ex_after_a)
   \<and> finite (ran (ref_commit ex_backend)) \<and> run_inv ex_backend ex_after_a
   \<and> cid commit_a \<in> set (done_l ex_after_a) \<and> has_key (done_d ex_after_a) (cid commit_a)
   \<and> todo ex_after_a = []
   \<and> get_commit ex_backend ex_after_a ''a'' = Inr (commit_a, ex_after_a)
   \<and> todo (seeded ex_after_a commit_a) = [commit_a]
   \<and> find_dependencies ex_backend ex_options ex_after_a ''a'' None
       = map_option (map_sum id (notify_listeners All_done))
           (todo_loop ex_backend ex_options (seeded ex_after_a commit_a))
   \<and> run_inv ex_backend (ex_queue [commit_c])
   \<and> has_key (todo_d (ex_queue [commit_c])) (cid commit_c)
   \<and> get_commit ex_backend (ex_queue [commit_c]) ''c''
       = Inr (commit_c, (ex_queue [commit_c])\<lparr>commits := [(KStr ''c'', commit_c)]\<rparr>)
   \<and> todo (seeded ((ex_queue [commit_c])\<lparr>commits := [(KStr ''c'', commit_c)]\<rparr>) commit_c)
       = [commit_c, commit_c]
   \<and> find_dependencies ex_backend ex_options (ex_queue [commit_c]) ''c'' None
       = Some (Inl KeyError)"
proof -
  have 1: "find_dependencies ex_backend ex_options init ''a'' None = Some (Inr ex_after_a)"
    by code_simp
  have 2: "finite (ran (ref_commit ex_backend))" by (simp add: ex_backend_ran)
  have 3: "run_inv ex_backend ex_after_a"
    by (simp add: run_inv_def cache_ok_def done_ok_def registered_done_def ex_after_a_def
        init_def ex_backend_def)
  have 4: "cid commit_a \<in> set (done_l ex_after_a)" "has_key (done_d ex_after_a) (cid commit_a)"
    "todo ex_after_a = []" "todo (seeded ex_after_a commit_a) = [commit_a]"
    by (simp_all add: ex_after_a_def init_def commit_a_def has_key_def seeded_def)
  have 5: "get_commit ex_backend ex_after_a ''a'' = Inr (commit_a, ex_after_a)"
    by (simp add: get_commit_def ex_after_a_def init_def)
  note 6 = find_dependencies_seeded [OF 5, of ex_options None]
  have 7: "run_inv ex_backend (ex_queue [commit_c])"
    by (rule ex_queue_inv) simp
  have 8: "has_key (todo_d (ex_queue [commit_c])) (cid commit_c)"
    "todo (seeded ((ex_queue [commit_c])\<lparr>commits := [(KStr ''c'', commit_c)]\<rparr>) commit_c)
       = [commit_c, commit_c]"
    by (simp_all add: ex_queue_def init_def has_key_def seeded_def)
  have 9: "get_commit ex_backend (ex_queue [commit_c]) ''c''
       = Inr (commit_c, (ex_queue [commit_c])\<lparr>commits := [(KStr ''c'', commit_c)]\<rparr>)"
    by (simp add: get_commit_def ex_queue_def init_def ex_backend_def)
  have 10: "find_dependencies ex_backend ex_options (ex_queue [commit_c]) ''c'' None
       = Some (Inl KeyError)"
    by code_simp
  from 1 2 3 4 5 6 7 8 9 10 show ?thesis by simp
qed

text \<open>
  C4, amended. On a finite commit history (the backend resolves revisions to finitely
  many commits; the parents of a commit are a list), from a state that satisfies the
  invariant \<open>run_inv\<close> of the detector (the initial state does, and every run keeps it),
  \<open>find_dependencies\<close> returns, whatever \<open>options.recurse\<close> is: it is never \<open>None\<close>.
  It either ends with a fatal error or returns normally, and then the worklist is empty,
  the list of processed commits has no duplicate and extends the one before the run
  (each commit is processed at most once), and \<open>all_done\<close> has been fired exactly once,
  as the last notification. A popped commit that is already done is not processed again
  (no notification, no change of the graph or of the done list), and
  \<open>process_new_dependency\<close> leaves the worklist alone for a dependency that is queued or
  done. The commit a run starts from is appended to the worklist whatever the done set
  and the worklist hold (\<open>seeded\<close>); when the detector is idle and that commit is already
  done, the run pops it, skips it and adds \<open>all_done\<close> only.
\<close>

theorem find_dependencies_terminates:
  assumes "finite (ran (ref_commit be))" and "run_inv be st"
  shows "(\<exists>r. find_dependencies be opts st dependent_rev recurse_arg = Some r
            \<and> (\<forall>st'. r = Inr st' \<longrightarrow>
                  todo st' = [] \<and> run_inv be st' \<and> distinct (done_l st')
                  \<and> (\<exists>new. done_l st' = done_l st @ new)
                  \<and> (\<exists>evs. events st' = events st @ evs @ [All_done] \<and> All_done \<notin> set evs)))
       \<and> (\<forall>s c rest s'. todo s = c # rest \<longrightarrow> has_key (done_d s) (cid c)
              \<longrightarrow> process_todo be opts s = Inr s'
              \<longrightarrow> todo s' = rest \<and> dependencies s' = dependencies s
                  \<and> done_l s' = done_l s \<and> done_d s' = done_d s \<and> events s' = events s)
       \<and> (\<forall>s dependent dsha dependency ysha p n s'.
              has_key (todo_d s) ysha \<or> has_key (done_d s) ysha
              \<longrightarrow> process_new_dependency opts s dependent dsha dependency ysha p n = Inr s'
              \<longrightarrow> todo s' = todo s \<and> todo_d s' = todo_d s)
       \<and> (\<forall>s revision a seed s1. get_commit be s revision = Inr (seed, s1)
              \<longrightarrow> todo (seeded s1 seed) = todo s @ [seed]
                  \<and> find_dependencies be opts s revision a
                      = map_option (map_sum id (notify_listeners All_done))
                          (todo_loop be opts (seeded s1 seed)))
       \<and> (\<forall>s revision a seed s1.
              todo s = [] \<and> todo_d s = [] \<and> has_key (done_d s) (cid seed)
              \<and> get_commit be s revision = Inr (seed, s1)
              \<longrightarrow> only_caches s s1
                  \<and> find_dependencies be opts s revision a
                      = Some (Inr (notify_listeners All_done s1)))"
proof -
  from find_dependencies_total [OF assms, of opts dependent_rev recurse_arg]
  have A: "\<exists>r. find_dependencies be opts st dependent_rev recurse_arg = Some r
            \<and> (\<forall>st'. r = Inr st' \<longrightarrow>
                  todo st' = [] \<and> run_inv be st' \<and> distinct (done_l st')
                  \<and> (\<exists>new. done_l st' = done_l st @ new)
                  \<and> (\<exists>evs. events st' = events st @ evs @ [All_done] \<and> All_done \<notin> set evs))"
    by (auto simp: run_inv_def done_ok_def)
  have B: "\<forall>s c rest s'. todo s = c # rest \<longrightarrow> has_key (done_d s) (cid c)
              \<longrightarrow> process_todo be opts s = Inr s'
              \<longrightarrow> todo s' = rest \<and> dependencies s' = dependencies s
                  \<and> done_l s' = done_l s \<and> done_d s' = done_d s \<and> events s' = events s"
  proof (intro allI impI)
    fix s c rest s'
    assume a: "todo s = c # rest" "has_key (done_d s) (cid c)" "process_todo be opts s = Inr s'"
    from a(1,3) have "s' = popped s"
      by (cases rule: process_todo_cases) (use a(2) in simp_all)
    with a(1) show "todo s' = rest \<and> dependencies s' = dependencies s
                  \<and> done_l s' = done_l s \<and> done_d s' = done_d s \<and> events s' = events s"
      by (simp add: popped_fields)
  qed
  have C: "\<forall>s dependent dsha dependency ysha p n s'.
              has_key (todo_d s) ysha \<or> has_key (done_d s) ysha
              \<longrightarrow> process_new_dependency opts s dependent dsha dependency ysha p n = Inr s'
              \<longrightarrow> todo s' = todo s \<and> todo_d s' = todo_d s"
  proof (intro allI impI)
    fix s dependent dsha dependency ysha p n s'
    assume "has_key (todo_d s) ysha \<or> has_key (done_d s) ysha"
      and "process_new_dependency opts s dependent dsha dependency ysha p n = Inr s'"
    with process_new_dependency_todo [of opts s dependent dsha dependency ysha p n s']
    show "todo s' = todo s \<and> todo_d s' = todo_d s" by blast
  qed
  have D: "\<forall>s revision a seed s1. get_commit be s revision = Inr (seed, s1)
              \<longrightarrow> todo (seeded s1 seed) = todo s @ [seed]
                  \<and> find_dependencies be opts s revision a
                      = map_option (map_sum id (notify_listeners All_done))
                          (todo_loop be opts (seeded s1 seed))"
  proof (intro allI impI)
    fix s revision a seed s1
    assume g: "get_commit be s revision = Inr (seed, s1)"
    from get_commit_only_caches [OF g] have "todo (seeded s1 seed) = todo s @ [seed]"
      by (simp add: seeded_def only_caches_def)
    with find_dependencies_seeded [OF g, of opts a]
    show "todo (seeded s1 seed) = todo s @ [seed]
                  \<and> find_dependencies be opts s revision a
                      = map_option (map_sum id (notify_listeners All_done))
                          (todo_loop be opts (seeded s1 seed))"
      by simp
  qed
  have E: "\<forall>s revision a seed s1.
              todo s = [] \<and> todo_d s = [] \<and> has_key (done_d s) (cid seed)
              \<and> get_commit be s revision = Inr (seed, s1)
              \<longrightarrow> only_caches s s1
                  \<and> find_dependencies be opts s revision a
                      = Some (Inr (notify_listeners All_done s1))"
  proof (intro allI impI, elim conjE)
    fix s revision a seed s1
    assume h: "todo s = []" "todo_d s = []" "has_key (done_d s) (cid seed)"
      "get_commit be s revision = Inr (seed, s1)"
    from get_commit_only_caches [OF h(4)] done_seed_skipped [OF h, of opts a]
    show "only_caches s s1
                  \<and> find_dependencies be opts s revision a
                      = Some (Inr (notify_listeners All_done s1))"
      by simp
  qed
  show ?thesis by (rule conjI [OF A conjI [OF B conjI [OF C conjI [OF D E]]]])
qed

theorem find_dependencies_terminates_witness:
  "finite (ran (ref_commit ex_backend)) \<and> run_inv ex_backend init
   \<and> map_option (map_sum id (\<lambda>s. (todo s, done_l s, last (events s))))
        (find_dependencies ex_backend ex_options init ''c'' None)
       = Some (Inr ([], [''c'', ''b'', ''a''], All_done))
   \<and> todo ex_after_a = [] \<and> todo_d ex_after_a = []
   \<and> has_key (done_d ex_after_a) (cid commit_a)
   \<and> get_commit ex_backend ex_after_a ''a'' = Inr (commit_a, ex_after_a)
   \<and> find_dependencies ex_backend ex_options ex_after_a ''a'' None
       = Some (Inr (notify_listeners All_done ex_after_a))"
proof -
  have f: "finite (ran (ref_commit ex_backend))" by (simp add: ex_backend_ran)
  have i: "run_inv ex_backend init" by (rule run_inv_init)
  have e: "map_option (map_sum id (\<lambda>s. (todo s, done_l s, last (events s))))
        (find_dependencies ex_backend ex_options init ''c'' None)
       = Some (Inr ([], [''c'', ''b'', ''a''], All_done))"
    by code_simp
  have h: "todo ex_after_a = []" "todo_d ex_after_a = []"
    "has_key (done_d ex_after_a) (cid commit_a)"
    by (simp_all add: ex_after_a_def init_def commit_a_def has_key_def)
  have g: "get_commit ex_backend ex_after_a ''a'' = Inr (commit_a, ex_after_a)"
    by (simp add: get_commit_def ex_after_a_def init_def)
  note w = find_dependencies_terminates [OF f i, where opts = ex_options
      and dependent_rev = "''c''" and recurse_arg = None]
  from w [THEN conjunct1]
  have "\<exists>r. find_dependencies ex_backend ex_options init ''c'' None = Some r" by blast
  moreover from w [THEN conjunct2, THEN conjunct2, THEN conjunct2, THEN conjunct2] h g
  have "find_dependencies ex_backend ex_options ex_after_a ''a'' None
       = Some (Inr (notify_listeners All_done ex_after_a))"
    by blast
  ultimately show ?thesis using f i e h g by simp
qed

lemma turns_idle: "todo st = [] \<Longrightarrow> turns be opts n st = Inr st"
  by (induction n) (simp_all add: process_todo_def)

lemma pop_order_idle: "todo st = [] \<Longrightarrow> pop_order be opts n st = []"
  by (cases n) simp_all

lemma enqueue_order_idle: "todo st = [] \<Longrightarrow> enqueue_order be opts n st = []"
  by (cases n) simp_all

lemma turns_snoc:
  "turns be opts n st = Inr s \<Longrightarrow> process_todo be opts s = Inr s1
   \<Longrightarrow> turns be opts (Suc n) st = Inr s1"
proof (induction n arbitrary: st)
  case 0
  then show ?case by simp
next
  case (Suc n)
  from Suc.prems(1) obtain st1 where p: "process_todo be opts st = Inr st1"
    and t: "turns be opts n st1 = Inr s"
    by (cases "process_todo be opts st") auto
  from Suc.IH [OF t Suc.prems(2)] p show ?case by simp
qed

lemma process_todo_turn:
  assumes "cache_ok be st" "set (todo st) \<subseteq> ran (ref_commit be)"
    and "todo st = c # rest" "process_todo be opts st = Inr st1"
  shows "cache_ok be st1 \<and> set (todo st1) \<subseteq> ran (ref_commit be)
       \<and> (\<exists>new. todo st1 = rest @ new)
       \<and> (done_l st1 = done_l st \<or> done_l st1 = done_l st @ [cid c])"
proof -
  from assms(3) have ne: "todo st \<noteq> []" by simp
  from process_todo_invariant [OF run_step_ok_True _ assms(1,2) ne assms(4)]
  have tp: "turn_post be st st1" by simp
  then show ?thesis using assms(3) unfolding turn_post_def by auto
qed

lemma queue_law:
  "cache_ok be st \<Longrightarrow> set (todo st) \<subseteq> ran (ref_commit be)
   \<Longrightarrow> turns be opts n st = Inr stn
   \<Longrightarrow> todo st @ enqueue_order be opts n st = pop_order be opts n st @ todo stn"
proof (induction n arbitrary: st)
  case 0
  then show ?case by simp
next
  case (Suc n)
  show ?case
  proof (cases "todo st")
    case Nil
    with Suc.prems(3) turns_idle [OF Nil, of be opts "Suc n"] have "stn = st" by simp
    with Nil show ?thesis by simp
  next
    case (Cons c rest)
    from Suc.prems(3) obtain st1 where p: "process_todo be opts st = Inr st1"
      and t: "turns be opts n st1 = Inr stn"
      by (cases "process_todo be opts st") auto
    from process_todo_turn [OF Suc.prems(1,2) Cons p] obtain new where
      1: "cache_ok be st1" "set (todo st1) \<subseteq> ran (ref_commit be)" "todo st1 = rest @ new"
      by blast
    from Suc.IH [OF 1(1,2) t]
    have "todo st1 @ enqueue_order be opts n st1 = pop_order be opts n st1 @ todo stn" .
    with Cons p 1(3) show ?thesis by simp
  qed
qed

lemma queue_prefix:
  "cache_ok be st \<Longrightarrow> set (todo st) \<subseteq> ran (ref_commit be)
   \<Longrightarrow> \<exists>rest. todo st @ enqueue_order be opts n st = pop_order be opts n st @ rest"
proof (induction n arbitrary: st)
  case 0
  then show ?case by simp
next
  case (Suc n)
  show ?case
  proof (cases "todo st")
    case Nil
    then show ?thesis by simp
  next
    case (Cons c rest)
    show ?thesis
    proof (cases "process_todo be opts st")
      case (Inl e)
      with Cons show ?thesis by simp
    next
      case (Inr st1)
      from process_todo_turn [OF Suc.prems(1,2) Cons Inr] obtain new where
        1: "cache_ok be st1" "set (todo st1) \<subseteq> ran (ref_commit be)" "todo st1 = rest @ new"
        by blast
      from Suc.IH [OF 1(1,2)] obtain r where
        "todo st1 @ enqueue_order be opts n st1 = pop_order be opts n st1 @ r" ..
      with Cons Inr 1(3) show ?thesis by simp
    qed
  qed
qed

lemma todo_loop_turns:
  assumes run: "todo_loop be opts st = Some (Inr st')"
  shows "\<exists>n. turns be opts n st = Inr st' \<and> todo st' = []"
proof -
  define J where "J = (\<lambda>s. \<exists>n. turns be opts n st = Inr s)"
  have "J st' \<and> todo st' = []"
  proof (rule todo_loop_invariant [of J be opts st st'])
    fix s s1 assume j: "J s" and p: "process_todo be opts s = Inr s1"
    from j obtain n where "turns be opts n st = Inr s" unfolding J_def ..
    from turns_snoc [OF this p] show "J s1" unfolding J_def ..
  next
    show "todo_loop be opts st = Some (Inr st')" by (rule run)
  next
    have "turns be opts 0 st = Inr st" by simp
    then show "J st" unfolding J_def ..
  qed
  then show ?thesis unfolding J_def by blast
qed

lemma has_key_delete: "has_key (AList.delete k al) k' = (k' \<noteq> k \<and> has_key al k')"
  by (auto simp: has_key_def delete_conv)

lemma queue_ok_during_cong:
  assumes "todo st' = todo st" "todo_d st' = todo_d st" "done_d st' = done_d st"
  shows "queue_ok_during c st' = queue_ok_during c st"
  using assms by (simp add: queue_ok_during_def queue_ok_def)

lemma process_new_dependency_enqueue:
  assumes "\<not> seen_commit st (KCommit dependency)"
    and "process_new_dependency opts st dependent dsha dependency ysha p n = Inr st'"
  shows "done_d st' = done_d st
       \<and> (todo st' = todo st \<and> todo_d st' = todo_d st
          \<or> todo st' = todo st @ [dependency]
            \<and> todo_d st' = AList.update (cid dependency) True (todo_d st)
            \<and> \<not> has_key (todo_d st) ysha \<and> \<not> has_key (done_d st) ysha
            \<and> \<not> has_key (dependencies st) ysha)"
proof (cases "map_of (dependencies st) dsha")
  case None
  with assms show ?thesis
    by (simp add: process_new_dependency_def set_edge_def notify_listeners_def)
next
  case (Some em)
  with assms show ?thesis
    by (auto simp: process_new_dependency_def set_edge_def notify_listeners_def Let_def
        has_key_update split: if_splits)
qed

lemma queue_ok_during_enqueue:
  assumes q: "queue_ok_during c st"
    and k: "\<not> has_key (todo_d st) (cid x)" "\<not> has_key (done_d st) (cid x)" "cid x \<noteq> cid c"
    and e: "todo st' = todo st @ [x]" "todo_d st' = AList.update (cid x) True (todo_d st)"
      "done_d st' = done_d st"
  shows "queue_ok_during c st'"
proof -
  from q have d: "distinct (map cid (todo st))"
    and s: "\<forall>k. has_key (todo_d st) k = (k \<in> cid ` set (todo st))"
    and n: "\<forall>y \<in> set (todo st). \<not> has_key (done_d st) (cid y)"
    and a: "\<forall>y \<in> set (todo st). cid y \<noteq> cid c"
    by (simp_all add: queue_ok_during_def queue_ok_def)
  from k(1) s have "cid x \<notin> cid ` set (todo st)" by simp
  with d have "distinct (map cid (todo st'))" by (simp add: e(1))
  moreover have "\<forall>k. has_key (todo_d st') k = (k \<in> cid ` set (todo st'))"
    using s by (auto simp: e has_key_update)
  moreover have "\<forall>y \<in> set (todo st'). \<not> has_key (done_d st') (cid y)"
    using n k(2) by (auto simp: e)
  moreover have "\<forall>y \<in> set (todo st'). cid y \<noteq> cid c"
    using a k(3) by (auto simp: e)
  ultimately show ?thesis by (simp add: queue_ok_during_def queue_ok_def)
qed

lemma hunk_step_ok_queue:
  assumes dr: "dependent \<in> ran (ref_commit be)" and pa: "parents dependent = parent # others"
    and b: "blame_names_ids be opts"
  shows "hunk_step_ok be opts (queue_ok_during dependent) dependent parent"
  unfolding hunk_step_ok_def
proof (intro allI impI)
  fix st p h bh ltc st' ltc'
  assume I: "queue_ok_during dependent st" and c: "cache_ok be st"
    and reg: "has_key (dependencies st) (cid dependent)"
    and bh: "bh \<in> set (run_blame be opts h parent p)"
    and run: "process_blame_hunk be opts st dependent (cid dependent) parent p bh ltc
              = Inr (st', ltc')"
  from run show "queue_ok_during dependent st'"
  proof (cases rule: process_blame_hunk_cases)
    case (excluded dep st1)
    from get_commit_ok [OF c excluded(1)]
    have 1: "cache_ok be st1" "only_caches st st1" by simp_all
    from is_excluded_ok [OF 1(1) excluded(2)]
    have 2: "only_caches st1 st'" by simp
    from only_caches_trans [OF 1(2) 2] have "only_caches st st'" .
    then have "queue_ok_during dependent st' = queue_ok_during dependent st"
      by (intro queue_ok_during_cong) (simp_all add: only_caches_def)
    with I show ?thesis by simp
  next
    case (recorded dep st1 st2 st3 em)
    from get_commit_ok [OF c recorded(1)]
    have 1: "cache_ok be st1" "only_caches st st1" "ref_commit be (orig_commit_id bh) = Some dep"
      by simp_all
    from is_excluded_ok [OF 1(1) recorded(2)]
    have 2: "cache_ok be st2" "only_caches st1 st2" by simp_all
    have o2: "only_caches st st2" using 1(2) 2(2) by (rule only_caches_trans)
    then have "queue_ok_during dependent st2 = queue_ok_during dependent st"
      by (intro queue_ok_during_cong) (simp_all add: only_caches_def)
    with I have I2: "queue_ok_during dependent st2" by simp
    from o2 reg have reg2: "has_key (dependencies st2) (cid dependent)"
      by (simp add: only_caches_def)
    from b dr pa bh 1(3) have id: "cid dep = orig_commit_id bh"
      unfolding blame_names_ids_def by blast
    have I3: "queue_ok_during dependent st3"
    proof (cases "has_key em (orig_commit_id bh)")
      case True
      with recorded(4) I2 show ?thesis by auto
    next
      case False
      with recorded(4) have pnd: "process_new_dependency opts st2 dependent (cid dependent) dep
             (orig_commit_id bh) p (final_start_line_number bh) = Inr st3"
        by auto
      from process_new_dependency_enqueue [OF seen_commit_object [OF 2(1)] pnd]
      have dn: "done_d st3 = done_d st2"
        and alt: "todo st3 = todo st2 \<and> todo_d st3 = todo_d st2
          \<or> todo st3 = todo st2 @ [dep]
            \<and> todo_d st3 = AList.update (cid dep) True (todo_d st2)
            \<and> \<not> has_key (todo_d st2) (orig_commit_id bh)
            \<and> \<not> has_key (done_d st2) (orig_commit_id bh)
            \<and> \<not> has_key (dependencies st2) (orig_commit_id bh)"
        by simp_all
      from alt show ?thesis
      proof
        assume "todo st3 = todo st2 \<and> todo_d st3 = todo_d st2"
        with dn have "queue_ok_during dependent st3 = queue_ok_during dependent st2"
          by (intro queue_ok_during_cong) simp_all
        with I2 show ?thesis by simp
      next
        assume e: "todo st3 = todo st2 @ [dep]
            \<and> todo_d st3 = AList.update (cid dep) True (todo_d st2)
            \<and> \<not> has_key (todo_d st2) (orig_commit_id bh)
            \<and> \<not> has_key (done_d st2) (orig_commit_id bh)
            \<and> \<not> has_key (dependencies st2) (orig_commit_id bh)"
        with reg2 have "cid dep \<noteq> cid dependent" unfolding id by auto
        with e dn I2 show ?thesis
          by (intro queue_ok_during_enqueue [of dependent st2 dep st3]) (simp_all add: id)
      qed
    qed
    from record_dependency_source_effect [OF recorded(5)]
    have "todo st' = todo st3" "todo_d st' = todo_d st3" "done_d st' = done_d st3"
      by auto
    then have "queue_ok_during dependent st' = queue_ok_during dependent st3"
      by (rule queue_ok_during_cong)
    with I3 show ?thesis by simp
  qed
qed

lemma register_ok_queue: "register_ok (queue_ok_during c) dependent"
  unfolding register_ok_def
proof (intro allI impI)
  fix st assume q: "queue_ok_during c st"
  note e = register_new_dependent_effect [of st dependent "cid dependent"]
  have "queue_ok_during c (register_new_dependent st dependent (cid dependent))
        = queue_ok_during c st"
    using e by (intro queue_ok_during_cong) simp_all
  with q show "queue_ok_during c (register_new_dependent st dependent (cid dependent))"
    by simp
qed

lemma queue_ok_popped:
  assumes q: "queue_ok st" and td: "todo st = c # rest"
  shows "queue_ok_during c (notify_listeners e (popped st))"
proof -
  let ?s = "notify_listeners e (popped st)"
  have f: "todo ?s = rest" "todo_d ?s = AList.delete (cid c) (todo_d st)" "done_d ?s = done_d st"
    using td by (simp_all add: notify_listeners_def popped_def)
  from q td have d: "cid c \<notin> cid ` set rest" "distinct (map cid rest)"
    and s: "\<forall>k. has_key (todo_d st) k = (k = cid c \<or> k \<in> cid ` set rest)"
    and n: "\<forall>y \<in> set rest. \<not> has_key (done_d st) (cid y)"
    by (simp_all add: queue_ok_def)
  have a: "\<forall>y \<in> set rest. cid y \<noteq> cid c"
  proof
    fix y assume "y \<in> set rest"
    then have "cid y \<in> cid ` set rest" by (rule imageI)
    with d(1) show "cid y \<noteq> cid c" by auto
  qed
  have "\<forall>k. has_key (todo_d ?s) k = (k \<in> cid ` set (todo ?s))"
    using s a by (auto simp: f has_key_delete)
  moreover have "\<forall>y \<in> set (todo ?s). cid y \<noteq> cid c"
    using a by (simp add: f)
  ultimately show ?thesis
    using d(2) n by (simp add: queue_ok_during_def queue_ok_def f)
qed

lemma queue_ok_finished:
  assumes "queue_ok_during c st"
  shows "queue_ok (finished c st)"
  using assms
  by (auto simp: queue_ok_during_def queue_ok_def finished_fields has_key_update)

lemma turn_done:
  assumes c: "cache_ok be st" and t: "set (todo st) \<subseteq> ran (ref_commit be)"
    and q: "queue_ok st" and b: "blame_names_ids be opts"
    and td: "todo st = dependent # rest" and run: "process_todo be opts st = Inr st1"
  shows "done_l st1 = done_l st @ [cid dependent] \<and> queue_ok st1"
proof -
  from q td have nd: "\<not> has_key (done_d st) (cid dependent)" by (simp add: queue_ok_def)
  from t td have dr: "dependent \<in> ran (ref_commit be)" by simp
  let ?s = "notify_listeners (New_commit dependent) (popped st)"
  note q0 = queue_ok_popped [OF q td, of "New_commit dependent"]
  from td run show ?thesis
  proof (cases rule: process_todo_cases)
    case skipped
    with nd show ?thesis by simp
  next
    case root
    from queue_ok_finished [OF q0] show ?thesis
      by (simp add: root(4) finished_fields notify_fields popped_fields)
  next
    case (child parent others st2)
    have c0: "cache_ok be ?s"
      using c cache_ok_cong [of ?s st be] by (simp add: notify_fields popped_fields)
    note h = hunk_step_ok_queue [OF dr child(3) b]
    from find_dependencies_with_parent_invariant [OF h register_ok_queue q0 c0 child(4)]
    have q2: "queue_ok_during dependent st2" and f2: "frame be ?s st2"
      by (simp_all add: inner_post_def)
    from f2 have "done_l st2 = done_l st"
      by (simp add: frame_def notify_fields popped_fields)
    with queue_ok_finished [OF q2] show ?thesis
      by (simp add: child(5) finished_fields)
  qed
qed

lemma turns_done_order:
  assumes b: "blame_names_ids be opts"
  shows "cache_ok be st \<Longrightarrow> set (todo st) \<subseteq> ran (ref_commit be) \<Longrightarrow> queue_ok st
    \<Longrightarrow> turns be opts n st = Inr stn
    \<Longrightarrow> done_l stn = done_l st @ map cid (pop_order be opts n st) \<and> queue_ok stn"
proof (induction n arbitrary: st)
  case 0
  then show ?case by simp
next
  case (Suc n)
  show ?case
  proof (cases "todo st")
    case Nil
    with Suc.prems(4) turns_idle [OF Nil, of be opts "Suc n"] have "stn = st" by simp
    with Nil Suc.prems(3) show ?thesis by simp
  next
    case (Cons c rest)
    from Suc.prems(4) obtain st1 where p: "process_todo be opts st = Inr st1"
      and t: "turns be opts n st1 = Inr stn"
      by (cases "process_todo be opts st") auto
    from process_todo_turn [OF Suc.prems(1,2) Cons p]
    have 1: "cache_ok be st1" "set (todo st1) \<subseteq> ran (ref_commit be)" by simp_all
    from turn_done [OF Suc.prems(1,2,3) b Cons p]
    have 2: "done_l st1 = done_l st @ [cid c]" "queue_ok st1" by simp_all
    from Suc.IH [OF 1 2(2) t] 2(1) Cons p show ?thesis by simp
  qed
qed

lemma seeded_ok:
  assumes c: "cache_ok be st" and t: "set (todo st) \<subseteq> ran (ref_commit be)"
    and g: "get_commit be st revision = Inr (seed, st1)"
  shows "cache_ok be (seeded st1 seed) \<and> set (todo (seeded st1 seed)) \<subseteq> ran (ref_commit be)
       \<and> todo (seeded st1 seed) = todo st @ [seed] \<and> done_l (seeded st1 seed) = done_l st"
proof -
  from get_commit_ok [OF c g]
  have 1: "cache_ok be st1" "only_caches st st1" "ref_commit be revision = Some seed"
    by simp_all
  have "cache_ok be (seeded st1 seed) = cache_ok be st1"
    by (intro cache_ok_cong) (simp_all add: seeded_def)
  moreover have "seed \<in> ran (ref_commit be)" using 1(3) by (auto simp: ran_def)
  ultimately show ?thesis
    using 1(1,2) t by (simp add: seeded_def only_caches_def)
qed

lemma ex_blame_names_ids: "blame_names_ids ex_backend ex_options"
  by (auto simp: blame_names_ids_def ex_backend_ran run_blame_def ex_backend_def
      ex_options_def ex_blame_def commit_a_def commit_b_def commit_c_def split: if_splits)

subsection \<open>Order of the worklist\<close>

text \<open>
  C10. The worklist is a first-in first-out queue. \<open>pop_order\<close> lists the commits
  the loop pops in its first \<open>n\<close> turns and \<open>enqueue_order\<close> the commits these turns
  append, both in time order; \<open>turns\<close> is the state after \<open>n\<close> turns. A turn pops the
  head and leaves the rest of the queue in order, followed by what the turn enqueued,
  and the commit it processes is that head. Every enqueue is at the tail, in
  \<open>process_new_dependency\<close> and for the commit a run starts from. So at every moment
  of a run the queue on entry followed by everything enqueued so far is the sequence of
  the commits popped so far followed by the present queue: the loop always pops the
  commit that was enqueued earliest among those still queued. A run of the loop that
  returns normally has popped, in this order and nothing else, the queue it started
  with followed by all it enqueued; when the queue it starts with holds distinct
  commits that are not done, and line attribution names commits by their hashes, this
  is also the order in which the commits are appended to the done list. The same holds
  for \<open>find_dependencies\<close>, whose loop starts from the queue it found followed by the
  commit of the given revision.
\<close>

theorem worklist_fifo:
  assumes "cache_ok be st" and "set (todo st) \<subseteq> ran (ref_commit be)"
  shows "(\<forall>c rest st1. todo st = c # rest \<longrightarrow> process_todo be opts st = Inr st1
            \<longrightarrow> pop_order be opts (Suc 0) st = [c]
                \<and> todo st1 = rest @ enqueue_order be opts (Suc 0) st
                \<and> (done_l st1 = done_l st \<or> done_l st1 = done_l st @ [cid c]))
       \<and> (\<forall>s dependent dsha dependency ysha p k s'.
              process_new_dependency opts s dependent dsha dependency ysha p k = Inr s'
              \<longrightarrow> todo s' = todo s \<or> todo s' = todo s @ [dependency])
       \<and> (\<forall>s seed. todo (seeded s seed) = todo s @ [seed])
       \<and> (\<forall>n. \<exists>rest. todo st @ enqueue_order be opts n st = pop_order be opts n st @ rest)
       \<and> (\<forall>n stn. turns be opts n st = Inr stn
              \<longrightarrow> todo st @ enqueue_order be opts n st = pop_order be opts n st @ todo stn)
       \<and> (\<forall>st'. todo_loop be opts st = Some (Inr st')
              \<longrightarrow> (\<exists>n. turns be opts n st = Inr st' \<and> todo st' = []
                       \<and> pop_order be opts n st = todo st @ enqueue_order be opts n st
                       \<and> (queue_ok st \<and> blame_names_ids be opts
                            \<longrightarrow> done_l st' = done_l st @ map cid (pop_order be opts n st))))
       \<and> (\<forall>revision a seed st1 st2.
              get_commit be st revision = Inr (seed, st1)
              \<longrightarrow> find_dependencies be opts st revision a = Some (Inr st2)
              \<longrightarrow> (\<exists>n. pop_order be opts n (seeded st1 seed)
                          = todo st @ [seed] @ enqueue_order be opts n (seeded st1 seed)
                       \<and> (queue_ok (seeded st1 seed) \<and> blame_names_ids be opts
                            \<longrightarrow> done_l st2
                                = done_l st @ map cid (pop_order be opts n (seeded st1 seed)))))"
proof -
  have run: "\<exists>n. turns be opts n s = Inr s' \<and> todo s' = []
                 \<and> pop_order be opts n s = todo s @ enqueue_order be opts n s
                 \<and> (queue_ok s \<and> blame_names_ids be opts
                      \<longrightarrow> done_l s' = done_l s @ map cid (pop_order be opts n s))"
    if c: "cache_ok be s" and t: "set (todo s) \<subseteq> ran (ref_commit be)"
      and l: "todo_loop be opts s = Some (Inr s')" for s s'
  proof -
    from todo_loop_turns [OF l] obtain n where
      n: "turns be opts n s = Inr s'" and e: "todo s' = []" by blast
    from queue_law [OF c t n] e
    have q: "pop_order be opts n s = todo s @ enqueue_order be opts n s" by simp
    have "queue_ok s \<and> blame_names_ids be opts
            \<longrightarrow> done_l s' = done_l s @ map cid (pop_order be opts n s)"
    proof
      assume h: "queue_ok s \<and> blame_names_ids be opts"
      then have b: "blame_names_ids be opts" and qs: "queue_ok s" by simp_all
      from turns_done_order [OF b c t qs n]
      show "done_l s' = done_l s @ map cid (pop_order be opts n s)" by simp
    qed
    with n e q show ?thesis by blast
  qed
  have A: "\<forall>c rest st1. todo st = c # rest \<longrightarrow> process_todo be opts st = Inr st1
            \<longrightarrow> pop_order be opts (Suc 0) st = [c]
                \<and> todo st1 = rest @ enqueue_order be opts (Suc 0) st
                \<and> (done_l st1 = done_l st \<or> done_l st1 = done_l st @ [cid c])"
  proof (intro allI impI)
    fix c rest st1
    assume td: "todo st = c # rest" and p: "process_todo be opts st = Inr st1"
    from process_todo_turn [OF assms td p] obtain new where
      n: "todo st1 = rest @ new"
      and d: "done_l st1 = done_l st \<or> done_l st1 = done_l st @ [cid c]"
      by blast
    from td p n have "pop_order be opts (Suc 0) st = [c]"
      "todo st1 = rest @ enqueue_order be opts (Suc 0) st"
      by simp_all
    with d show "pop_order be opts (Suc 0) st = [c]
                \<and> todo st1 = rest @ enqueue_order be opts (Suc 0) st
                \<and> (done_l st1 = done_l st \<or> done_l st1 = done_l st @ [cid c])"
      by simp
  qed
  have B: "\<forall>s dependent dsha dependency ysha p k s'.
              process_new_dependency opts s dependent dsha dependency ysha p k = Inr s'
              \<longrightarrow> todo s' = todo s \<or> todo s' = todo s @ [dependency]"
  proof (intro allI impI)
    fix s dependent dsha dependency ysha p k s'
    assume "process_new_dependency opts s dependent dsha dependency ysha p k = Inr s'"
    from process_new_dependency_todo [OF this]
    show "todo s' = todo s \<or> todo s' = todo s @ [dependency]" by blast
  qed
  have S: "\<forall>s seed. todo (seeded s seed) = todo s @ [seed]"
    by (simp add: seeded_def)
  have P: "\<forall>n. \<exists>rest. todo st @ enqueue_order be opts n st = pop_order be opts n st @ rest"
    using queue_prefix [OF assms] by blast
  have C: "\<forall>n stn. turns be opts n st = Inr stn
              \<longrightarrow> todo st @ enqueue_order be opts n st = pop_order be opts n st @ todo stn"
    using queue_law [OF assms] by blast
  have D: "\<forall>st'. todo_loop be opts st = Some (Inr st')
              \<longrightarrow> (\<exists>n. turns be opts n st = Inr st' \<and> todo st' = []
                       \<and> pop_order be opts n st = todo st @ enqueue_order be opts n st
                       \<and> (queue_ok st \<and> blame_names_ids be opts
                            \<longrightarrow> done_l st' = done_l st @ map cid (pop_order be opts n st)))"
    using run [OF assms] by blast
  have E: "\<forall>revision a seed st1 st2.
              get_commit be st revision = Inr (seed, st1)
              \<longrightarrow> find_dependencies be opts st revision a = Some (Inr st2)
              \<longrightarrow> (\<exists>n. pop_order be opts n (seeded st1 seed)
                          = todo st @ [seed] @ enqueue_order be opts n (seeded st1 seed)
                       \<and> (queue_ok (seeded st1 seed) \<and> blame_names_ids be opts
                            \<longrightarrow> done_l st2
                                = done_l st @ map cid (pop_order be opts n (seeded st1 seed))))"
  proof (intro allI impI)
    fix revision a seed st1 st2
    assume g: "get_commit be st revision = Inr (seed, st1)"
      and f: "find_dependencies be opts st revision a = Some (Inr st2)"
    from seeded_ok [OF assms g]
    have s: "cache_ok be (seeded st1 seed)" "set (todo (seeded st1 seed)) \<subseteq> ran (ref_commit be)"
      "todo (seeded st1 seed) = todo st @ [seed]" "done_l (seeded st1 seed) = done_l st"
      by blast+
    from f find_dependencies_seeded [OF g, of opts a] obtain st3 where
      l: "todo_loop be opts (seeded st1 seed) = Some (Inr st3)"
      and st2: "st2 = notify_listeners All_done st3"
      by (cases "todo_loop be opts (seeded st1 seed)") (auto simp: map_sum_def split: sum.splits)
    from run [OF s(1,2) l] obtain n where
      q: "pop_order be opts n (seeded st1 seed)
            = todo (seeded st1 seed) @ enqueue_order be opts n (seeded st1 seed)"
      and d: "queue_ok (seeded st1 seed) \<and> blame_names_ids be opts
              \<longrightarrow> done_l st3 = done_l (seeded st1 seed)
                               @ map cid (pop_order be opts n (seeded st1 seed))"
      by blast
    from q d have "pop_order be opts n (seeded st1 seed)
                          = todo st @ [seed] @ enqueue_order be opts n (seeded st1 seed)
                       \<and> (queue_ok (seeded st1 seed) \<and> blame_names_ids be opts
                            \<longrightarrow> done_l st2
                                = done_l st @ map cid (pop_order be opts n (seeded st1 seed)))"
      by (simp add: s(3,4) st2 notify_fields)
    then show "\<exists>n. pop_order be opts n (seeded st1 seed)
                          = todo st @ [seed] @ enqueue_order be opts n (seeded st1 seed)
                       \<and> (queue_ok (seeded st1 seed) \<and> blame_names_ids be opts
                            \<longrightarrow> done_l st2
                                = done_l st @ map cid (pop_order be opts n (seeded st1 seed)))"
      ..
  qed
  show ?thesis
    by (rule conjI [OF A conjI [OF B conjI [OF S conjI [OF P conjI [OF C conjI [OF D E]]]]]])
qed

theorem worklist_fifo_witness:
  "cache_ok ex_backend init \<and> set (todo init) \<subseteq> ran (ref_commit ex_backend)
   \<and> get_commit ex_backend init ''c''
       = Inr (commit_c, init\<lparr>commits := [(KStr ''c'', commit_c)]\<rparr>)
   \<and> queue_ok ex_seeded_c \<and> blame_names_ids ex_backend ex_options
   \<and> pop_order ex_backend ex_options 3 ex_seeded_c = [commit_c, commit_b, commit_a]
   \<and> enqueue_order ex_backend ex_options 3 ex_seeded_c = [commit_b, commit_a]
   \<and> map_option (map_sum id done_l) (find_dependencies ex_backend ex_options init ''c'' None)
       = Some (Inr [''c'', ''b'', ''a''])
   \<and> (\<exists>n st2. find_dependencies ex_backend ex_options init ''c'' None = Some (Inr st2)
         \<and> pop_order ex_backend ex_options n ex_seeded_c
             = todo init @ [commit_c] @ enqueue_order ex_backend ex_options n ex_seeded_c
         \<and> done_l st2 = done_l init @ map cid (pop_order ex_backend ex_options n ex_seeded_c))"
proof -
  have h1: "cache_ok ex_backend init" by (rule cache_ok_init)
  have h2: "set (todo init) \<subseteq> ran (ref_commit ex_backend)" by (simp add: init_def)
  note h = h1 h2
  have g: "get_commit ex_backend init ''c''
       = Inr (commit_c, init\<lparr>commits := [(KStr ''c'', commit_c)]\<rparr>)"
    by (simp add: get_commit_def init_def ex_backend_def)
  have q: "queue_ok ex_seeded_c"
    by (auto simp: queue_ok_def ex_seeded_c_def seeded_def init_def has_key_def commit_c_def)
  have b: "blame_names_ids ex_backend ex_options" by (rule ex_blame_names_ids)
  have e: "pop_order ex_backend ex_options 3 ex_seeded_c = [commit_c, commit_b, commit_a]"
    "enqueue_order ex_backend ex_options 3 ex_seeded_c = [commit_b, commit_a]"
    "map_option (map_sum id done_l) (find_dependencies ex_backend ex_options init ''c'' None)
       = Some (Inr [''c'', ''b'', ''a''])"
    by code_simp+
  from ex_run_returns obtain st2 where
    r: "find_dependencies ex_backend ex_options init ''c'' None = Some (Inr st2)" ..
  note w = worklist_fifo [OF h, where opts = ex_options]
  note w7 = w [THEN conjunct2, THEN conjunct2, THEN conjunct2, THEN conjunct2, THEN conjunct2,
      THEN conjunct2]
  from w7 g r q b
  have "\<exists>n. pop_order ex_backend ex_options n ex_seeded_c
             = todo init @ [commit_c] @ enqueue_order ex_backend ex_options n ex_seeded_c
         \<and> done_l st2 = done_l init @ map cid (pop_order ex_backend ex_options n ex_seeded_c)"
    unfolding ex_seeded_c_def by blast
  with r have "\<exists>n st2. find_dependencies ex_backend ex_options init ''c'' None = Some (Inr st2)
         \<and> pop_order ex_backend ex_options n ex_seeded_c
             = todo init @ [commit_c] @ enqueue_order ex_backend ex_options n ex_seeded_c
         \<and> done_l st2 = done_l init @ map cid (pop_order ex_backend ex_options n ex_seeded_c)"
    by blast
  with h g q b e show ?thesis by simp
qed

end
